theory Spec2Isabelle
  imports Main "HOL-Library.Sublist" "HOL-Library.AList" "HOL-Library.Char_ord"
    "HOL-Library.List_Lexorder"
begin

section \<open>Plain-text merge (src/lib/mergeText.js)\<close>

text \<open>
  A diff is the array the diff-match-patch package hands back: pairs \<open>[op, text]\<close> with
  \<open>op = 0\<close> (equal), \<open>op = 1\<close> (insert) and \<open>op = -1\<close> (delete). The package is an npm
  dependency and not part of the repository, so the composition
  \<open>diff_main(old, new)\<close> followed by \<open>diff_cleanupSemantic\<close> is a parameter \<open>dmp\<close> of
  the model.
\<close>

type_synonym diff = "int \<times> string"

type_synonym differ = "string \<Rightarrow> string \<Rightarrow> diff list"

text \<open>
  The two texts a diff describes: the old text is the concatenation of its equal and delete
  spans, the new text the concatenation of its equal and insert spans (what the package's
  \<open>diff_text1\<close> and \<open>diff_text2\<close> rebuild). A diff from \<open>old\<close> to \<open>new\<close> satisfies
  \<open>diff_text1 ds = old\<close> and \<open>diff_text2 ds = new\<close>; the theorems below take these
  equations as their only assumption on the package.
\<close>

definition diff_text1 :: "diff list \<Rightarrow> string" where
  "diff_text1 ds = concat (map snd (filter (\<lambda>d. fst d = 0 \<or> fst d = - 1) ds))"

definition diff_text2 :: "diff list \<Rightarrow> string" where
  "diff_text2 ds = concat (map snd (filter (\<lambda>d. fst d = 0 \<or> fst d = 1) ds))"

text \<open>The text a diff inserts: the concatenation of its insert spans.\<close>

definition inserted_text :: "diff list \<Rightarrow> string" where
  "inserted_text ds = concat (map snd (filter (\<lambda>d. fst d = 1) ds))"

text \<open>The body of the \<open>for (const [op, text] of diffs)\<close> loop: all three branches append.\<close>

definition appendSpan :: "string \<Rightarrow> diff \<Rightarrow> string" where
  "appendSpan out d =
     (if fst d = 0 then out @ snd d
      else if fst d = 1 then out @ snd d
      else if fst d = - 1 then out @ snd d
      else out)"

text \<open>
  \<open>mergeSourceAdditionsIntoTarget(source, target)\<close>: the diff runs from target to source.
  On strings \<open>target || ""\<close> and \<open>source || ""\<close> are the strings themselves.
\<close>

definition mergeSourceAdditionsIntoTarget :: "differ \<Rightarrow> string \<Rightarrow> string \<Rightarrow> string" where
  "mergeSourceAdditionsIntoTarget dmp source target = foldl appendSpan [] (dmp target source)"

section \<open>Call gateway (src/lib/rateLimiter.js)\<close>

text \<open>
  \<open>createRateLimiter({ maxPerSecond, jitterMs })\<close>. Timestamps are \<open>Date.now()\<close> readings in
  milliseconds. \<open>minInterval = Math.ceil(windowMs / maxPerSecond)\<close> is written as the integer
  ceiling, which is what the source computes for a positive whole \<open>maxPerSecond\<close>.
\<close>

record limiter =
  maxPerSecond :: nat
  jitterMs :: nat

definition windowMs :: int where
  "windowMs = 1000"

definition minInterval :: "limiter \<Rightarrow> int" where
  "minInterval cfg = (windowMs + int (maxPerSecond cfg) - 1) div int (maxPerSecond cfg)"

text \<open>
  One pass through the body of \<open>throttle()\<close>. \<open>now\<close> is the clock reading at entry, \<open>now2\<close>
  the second reading taken by \<open>calls.push(Date.now())\<close>, and \<open>jit\<close> the value drawn by
  \<open>Math.floor(Math.random() * jitterMs)\<close>. The pass either asks for a sleep of the computed
  wait, after which the source calls \<open>throttle()\<close> again, or records the call and lets the
  caller proceed. With no retained timestamp and \<open>maxPerSecond = 0\<close> the source computes
  with \<open>calls[0] = undefined\<close> and the wait is NaN.
\<close>

datatype pass = Wait int | WaitNaN | Proceed

definition throttle :: "limiter \<Rightarrow> int list \<Rightarrow> int \<Rightarrow> int \<Rightarrow> int \<Rightarrow> pass \<times> int list" where
  "throttle cfg calls now now2 jit =
     (let kept = dropWhile (\<lambda>t. now - t > windowMs) calls
      in if length kept \<ge> maxPerSecond cfg
         then (case kept of
                 [] \<Rightarrow> (WaitNaN, kept)
               | oldest # _ \<Rightarrow> (Wait (max (minInterval cfg - (now - oldest)) 0 + jit), kept))
         else (Proceed, kept @ [now2]))"

text \<open>The singleton limiter: \<open>createRateLimiter({ maxPerSecond: 8, jitterMs: 25 })\<close>.\<close>

definition singleton_limiter :: limiter where
  "singleton_limiter = \<lparr>maxPerSecond = 8, jitterMs = 25\<rparr>"

text \<open>
  A failure thrown by a remote operation: the two properties \<open>callCMA\<close> inspects
  (\<open>e?.status\<close> and \<open>e?.sys?.id\<close>, absent as \<open>None\<close>) and the rest of the error as text.
\<close>

record failure =
  status :: "int option"
  sys_id :: "string option"
  detail :: string

definition isRate :: "failure \<Rightarrow> bool" where
  "isRate e = (status e = Some 429 \<or> sys_id e = Some ''RateLimitExceeded'')"

text \<open>
  \<open>callCMA(fn, { retries, baseDelay })\<close>. The operation \<open>fn\<close> is effectful: \<open>fn i\<close> is the
  outcome of its invocation number \<open>i\<close> (counted from 0) within this call, \<open>Inl\<close> for a
  thrown failure. Each turn of the \<open>for (;;)\<close> loop invokes it once, so the invocation number
  is the loop's \<open>attempt\<close>. \<open>jitter i\<close> is the value of \<open>Math.floor(Math.random() * 100)\<close>
  drawn in turn \<open>i\<close>. The result is the trace of what the loop did and what it returned or
  threw.
\<close>

datatype event = Throttle | Invoke | Sleep nat

function callCMA_from ::
  "(nat \<Rightarrow> failure + 'a) \<Rightarrow> (nat \<Rightarrow> nat) \<Rightarrow> nat \<Rightarrow> nat \<Rightarrow> nat \<Rightarrow> event list \<times> (failure + 'a)"
where
  "callCMA_from fn jitter retries baseDelay attempt =
     (case fn attempt of
        Inr v \<Rightarrow> ([Throttle, Invoke], Inr v)
      | Inl e \<Rightarrow>
          if \<not> isRate e \<or> attempt \<ge> retries then ([Throttle, Invoke], Inl e)
          else (let wait = baseDelay * 2 ^ attempt + jitter attempt;
                    rest = callCMA_from fn jitter retries baseDelay (attempt + 1)
                in (Throttle # Invoke # Sleep wait # fst rest, snd rest)))"
  by pat_completeness auto
termination
  by (relation "measure (\<lambda>(fn, jitter, retries, baseDelay, attempt). retries - attempt)") auto

definition callCMA ::
  "(nat \<Rightarrow> failure + 'a) \<Rightarrow> (nat \<Rightarrow> nat) \<Rightarrow> nat \<Rightarrow> nat \<Rightarrow> event list \<times> (failure + 'a)"
where
  "callCMA fn jitter retries baseDelay = callCMA_from fn jitter retries baseDelay 0"

text \<open>The defaults of the options argument: \<open>{ retries = 4, baseDelay = 300 }\<close>.\<close>

definition callCMA_default :: "(nat \<Rightarrow> failure + 'a) \<Rightarrow> (nat \<Rightarrow> nat) \<Rightarrow> event list \<times> (failure + 'a)" where
  "callCMA_default fn jitter = callCMA fn jitter 4 300"

definition rate_limited :: "failure + 'a \<Rightarrow> bool" where
  "rate_limited r = (case r of Inl e \<Rightarrow> isRate e | Inr v \<Rightarrow> False)"

section \<open>JSON values\<close>

text \<open>
  Field values, link objects and node payloads are JSON as the remote API delivers it.
  Objects are association lists: key order is what \<open>JSON.stringify\<close> prints and what
  \<open>Object.values\<close> walks. Numbers are modelled as integers; the code only copies and
  compares them. \<open>undefined\<close> is not a JSON value: an absent property is \<open>None\<close> of an
  option.
\<close>

datatype json = JNull | JBool bool | JNum int | JStr string | JArr "json list"
  | JObj "(string \<times> json) list"

text \<open>JavaScript truthiness, as \<open>if (v)\<close>, \<open>v && ...\<close> and \<open>v || ...\<close> test it.\<close>

fun truthy :: "json \<Rightarrow> bool" where
  "truthy JNull = False"
| "truthy (JBool b) = b"
| "truthy (JNum n) = (n \<noteq> 0)"
| "truthy (JStr s) = (s \<noteq> [])"
| "truthy (JArr xs) = True"
| "truthy (JObj kvs) = True"

text \<open>\<open>Array.prototype.join(sep)\<close> on an array of strings.\<close>

fun join :: "string \<Rightarrow> string list \<Rightarrow> string" where
  "join sep [] = []"
| "join sep [x] = x"
| "join sep (x # y # ys) = x @ sep @ join sep (y # ys)"

text \<open>
  \<open>JSON.stringify\<close> on JSON values: no white space, keys in order, strings quoted with the
  escapes of the ECMAScript \<open>QuoteJSONString\<close> operation, integers in decimal.
\<close>

fun show_nat :: "nat \<Rightarrow> string" where
  "show_nat n = (if n < 10 then [char_of (48 + n)] else show_nat (n div 10) @ [char_of (48 + n mod 10)])"

definition show_int :: "int \<Rightarrow> string" where
  "show_int i = (if i < 0 then CHR ''-'' # show_nat (nat (- i)) else show_nat (nat i))"

definition hex_digit :: "nat \<Rightarrow> char" where
  "hex_digit n = (if n < 10 then char_of (48 + n) else char_of (87 + n))"

definition escape_char :: "char \<Rightarrow> string" where
  "escape_char c =
     (if c = CHR 0x22 then [CHR 0x5C, CHR 0x22]
      else if c = CHR 0x5C then [CHR 0x5C, CHR 0x5C]
      else if c = CHR 0x08 then [CHR 0x5C, CHR ''b'']
      else if c = CHR 0x0C then [CHR 0x5C, CHR ''f'']
      else if c = CHR 0x0A then [CHR 0x5C, CHR ''n'']
      else if c = CHR 0x0D then [CHR 0x5C, CHR ''r'']
      else if c = CHR 0x09 then [CHR 0x5C, CHR ''t'']
      else if (of_char c :: nat) < 32
        then [CHR 0x5C, CHR ''u'', CHR ''0'', CHR ''0'', hex_digit (of_char c div 16), hex_digit (of_char c mod 16)]
      else [c])"

definition quote :: "string \<Rightarrow> string" where
  "quote s = CHR 0x22 # concat (map escape_char s) @ [CHR 0x22]"

fun JSON_stringify :: "json \<Rightarrow> string" where
  "JSON_stringify JNull = ''null''"
| "JSON_stringify (JBool b) = (if b then ''true'' else ''false'')"
| "JSON_stringify (JNum n) = show_int n"
| "JSON_stringify (JStr s) = quote s"
| "JSON_stringify (JArr xs) = ''['' @ join '','' (map JSON_stringify xs) @ '']''"
| "JSON_stringify (JObj kvs) =
     ''{'' @ join '','' (map (\<lambda>kv. quote (fst kv) @ '':'' @ JSON_stringify (snd kv)) kvs) @ ''}''"



section \<open>Structured-document merge (src/unnamed/part_002, mergeRichText.js)\<close>

text \<open>
  A rich-text node is a JSON object with the properties \<open>nodeType\<close>, \<open>data\<close>, \<open>content\<close>,
  \<open>value\<close> and \<open>marks\<close>; the last four may be absent (\<open>None\<close>), which is what
  \<open>node.marks || activeMarks\<close>, \<open>node.content || []\<close> and \<open>Array.isArray(node.content)\<close> test.
  A mark is the object \<open>{ type }\<close>, modelled by its type string, so \<open>cloneMarks\<close> is the
  identity; \<open>clone\<close> (a JSON round trip) is the identity on nodes and JSON values.
  \<open>nkeys\<close> lists the names of the object's own properties in the order the object holds
  them (insertion order), which is the order \<open>JSON.stringify\<close> prints them in: two nodes
  with the same properties in a different order print differently.
\<close>

datatype node = Node (nodeType: string) (ndata: "json option") (ncontent: "node list option")
  (nvalue: "string option") (nmarks: "string list option") (nkeys: "string list")

text \<open>
  A span of \<open>flattenInlineBlock\<close>: \<open>{ start, end, marks, hyperlink, text }\<close>. The hyperlink of a
  span is \<open>null\<close> or the object \<open>{ data }\<close> built by \<open>cloneHyperlink\<close>; the model keeps its
  \<open>data\<close>.
\<close>

record span =
  sp_start :: int
  sp_end :: int
  sp_marks :: "string list"
  sp_hyperlink :: "json option"
  sp_text :: string

text \<open>
  \<open>x || {}\<close> for a property \<open>x\<close> that may be absent.
\<close>

definition data_or_empty :: "json option \<Rightarrow> json" where
  "data_or_empty d = (case d of Some v \<Rightarrow> (if truthy v then v else JObj []) | None \<Rightarrow> JObj [])"

text \<open>
  \<open>pushSpan\<close> and \<open>walk\<close> of \<open>flattenInlineBlock\<close>. The closure variables \<open>spans\<close> and \<open>text\<close>
  are the pair threaded through; \<open>activeHyperlink\<close> is the enclosing hyperlink node.
\<close>

definition pushSpan :: "string \<Rightarrow> string list \<Rightarrow> node option \<Rightarrow> span list \<times> string \<Rightarrow> span list \<times> string" where
  "pushSpan t marks hyperlink acc =
     (if t = [] then acc
      else (fst acc @ [\<lparr>sp_start = int (length (snd acc)),
                         sp_end = int (length (snd acc)) + int (length t),
                         sp_marks = marks,
                         sp_hyperlink = (case hyperlink of Some h \<Rightarrow> Some (data_or_empty (ndata h)) | None \<Rightarrow> None),
                         sp_text = t\<rparr>],
            snd acc @ t))"

fun walk :: "node list \<Rightarrow> string list \<Rightarrow> node option \<Rightarrow> span list \<times> string \<Rightarrow> span list \<times> string"
  and walkNode :: "node \<Rightarrow> string list \<Rightarrow> node option \<Rightarrow> span list \<times> string \<Rightarrow> span list \<times> string"
where
  "walk [] activeMarks activeHyperlink acc = acc"
| "walk (n # ns) activeMarks activeHyperlink acc =
     walk ns activeMarks activeHyperlink (walkNode n activeMarks activeHyperlink acc)"
| "walkNode (Node ty d None v m ks) activeMarks activeHyperlink acc =
     (if ty = ''text'' then
        pushSpan (case v of Some t \<Rightarrow> t | None \<Rightarrow> [])
          (case m of Some ms \<Rightarrow> ms | None \<Rightarrow> activeMarks) activeHyperlink acc
      else acc)"
| "walkNode (Node ty d (Some c) v m ks) activeMarks activeHyperlink acc =
     (if ty = ''text'' then
        pushSpan (case v of Some t \<Rightarrow> t | None \<Rightarrow> [])
          (case m of Some ms \<Rightarrow> ms | None \<Rightarrow> activeMarks) activeHyperlink acc
      else if ty = ''hyperlink'' then
        walk c (case m of Some ms \<Rightarrow> ms | None \<Rightarrow> activeMarks)
          (Some (Node ty d (Some c) v m ks)) acc
      else walk c (case m of Some ms \<Rightarrow> ms | None \<Rightarrow> activeMarks) activeHyperlink acc)"


record flat =
  fl_text :: string
  fl_spans :: "span list"

definition flattenInlineBlock :: "node \<Rightarrow> flat" where
  "flattenInlineBlock block =
     (let r = walk (case ncontent block of Some c \<Rightarrow> c | None \<Rightarrow> []) [] None ([], [])
      in \<lparr>fl_text = snd r, fl_spans = fst r\<rparr>)"

text \<open>
  \<open>String.prototype.slice(a, b)\<close>: negative indices count from the end, both are clamped
  to the string.
\<close>

definition js_slice :: "string \<Rightarrow> int \<Rightarrow> int \<Rightarrow> string" where
  "js_slice s a b =
     (let len = int (length s);
          from = (if a < 0 then max (len + a) 0 else min a len);
          to = (if b < 0 then max (len + b) 0 else min b len)
      in take (nat (to - from)) (drop (nat from) s))"

text \<open>
  \<open>cloneHyperlink(h) = { data: clone(h.data || {}) }\<close>, on the \<open>data\<close> of a span's hyperlink.
\<close>

definition cloneHyperlink :: "json \<Rightarrow> json" where
  "cloneHyperlink d = data_or_empty (Some d)"

definition sliceSpans :: "span list \<Rightarrow> int \<Rightarrow> int \<Rightarrow> span list" where
  "sliceSpans spans start end' =
     (if start \<ge> end' then []
      else concat (map (\<lambda>s.
        if sp_end s \<le> start \<or> sp_start s \<ge> end' then []
        else (let from = max start (sp_start s); to = min end' (sp_end s)
              in [\<lparr>sp_start = from, sp_end = to, sp_marks = sp_marks s,
                    sp_hyperlink = map_option cloneHyperlink (sp_hyperlink s),
                    sp_text = js_slice (sp_text s) (from - sp_start s) (to - sp_start s)\<rparr>])) spans))"

definition spanAtPosition :: "span list \<Rightarrow> int \<Rightarrow> span option" where
  "spanAtPosition spans pos =
     (if pos < 0 then None
      else (case find (\<lambda>s. pos \<ge> sp_start s \<and> pos < sp_end s) spans of
              Some s \<Rightarrow> Some s
            | None \<Rightarrow> if spans \<noteq> [] \<and> pos = sp_end (last spans) then Some (last spans) else None))"

text \<open>
  \<open>marks.map(m => m.type).sort().join("|")\<close>, as \<open>sameMarks\<close> and \<open>keyFor\<close> compute it; the
  default \<open>sort\<close> orders strings by code unit, which is the lexicographic order on
  \<open>string\<close>.
\<close>

definition marksKey :: "string list \<Rightarrow> string" where
  "marksKey marks = join ''|'' (sort marks)"

definition sameMarks :: "string list \<Rightarrow> string list \<Rightarrow> bool" where
  "sameMarks a b = (if length a \<noteq> length b then False else marksKey a = marksKey b)"

definition sameHyperlink :: "json option \<Rightarrow> json option \<Rightarrow> bool" where
  "sameHyperlink a b =
     (case (a, b) of
        (None, None) \<Rightarrow> True
      | (Some x, Some y) \<Rightarrow>
          JSON_stringify (data_or_empty (Some x)) = JSON_stringify (data_or_empty (Some y))
      | _ \<Rightarrow> False)"

text \<open>
  \<open>coalesceSpans\<close>: \<open>prev\<close> is the span last pushed to \<open>out\<close>, which the loop extends in place
  (\<open>prev.text += s.text\<close>) while the formatting is the same. \<open>coalesceFrom prev ss\<close> is what
  the loop still adds to \<open>out\<close>, \<open>prev\<close> included, from the spans \<open>ss\<close> left.
\<close>

fun coalesceFrom :: "span \<Rightarrow> span list \<Rightarrow> span list" where
  "coalesceFrom prev [] = [prev]"
| "coalesceFrom prev (s # ss) =
     (if sameMarks (sp_marks prev) (sp_marks s) \<and> sameHyperlink (sp_hyperlink prev) (sp_hyperlink s)
      then coalesceFrom (prev\<lparr>sp_text := sp_text prev @ sp_text s\<rparr>) ss
      else prev # coalesceFrom s ss)"

fun coalesceSpans :: "span list \<Rightarrow> span list" where
  "coalesceSpans [] = []"
| "coalesceSpans (s # ss) = coalesceFrom s ss"

text \<open>
  The span pushed for an insert operation (\<open>op === 1\<close>) in \<open>rebuildSpansFromDiffs\<close>.
\<close>

definition insertedSpan :: "span list \<Rightarrow> int \<Rightarrow> string \<Rightarrow> span" where
  "insertedSpan targetSpans cursor t =
     (let inherit = (case spanAtPosition targetSpans cursor of
                       Some s \<Rightarrow> Some s
                     | None \<Rightarrow> spanAtPosition targetSpans (cursor - 1))
      in \<lparr>sp_start = - 1, sp_end = - 1,
          sp_marks = (case inherit of Some s \<Rightarrow> sp_marks s | None \<Rightarrow> []),
          sp_hyperlink = (case inherit of
                            Some s \<Rightarrow> map_option cloneHyperlink (sp_hyperlink s)
                          | None \<Rightarrow> None),
          sp_text = t\<rparr>)"

text \<open>
  The \<open>for (const [op, text] of diffs)\<close> loop of \<open>rebuildSpansFromDiffs\<close>: the spans pushed to
  \<open>out\<close> from the diffs left, with \<open>cursor\<close> the position in the target text.
\<close>

fun rebuildLoop :: "diff list \<Rightarrow> span list \<Rightarrow> int \<Rightarrow> span list" where
  "rebuildLoop [] targetSpans cursor = []"
| "rebuildLoop (d # ds) targetSpans cursor =
     (let len = int (length (snd d)) in
      if fst d = 0 \<or> fst d = - 1 then
        sliceSpans targetSpans cursor (cursor + len) @ rebuildLoop ds targetSpans (cursor + len)
      else if fst d = 1 then
        insertedSpan targetSpans cursor (snd d) # rebuildLoop ds targetSpans cursor
      else rebuildLoop ds targetSpans cursor)"

definition rebuildSpansFromDiffs :: "diff list \<Rightarrow> span list \<Rightarrow> span list" where
  "rebuildSpansFromDiffs diffs targetSpans = coalesceSpans (rebuildLoop diffs targetSpans 0)"

text \<open>
  \<open>normalizeMarks\<close>: marks with a falsy type are dropped, and a \<open>Map\<close> keyed by type keeps the
  first occurrence of each type, in order.
\<close>

definition normalizeMarks :: "string list \<Rightarrow> string list" where
  "normalizeMarks marks = rev (remdups (rev (filter (\<lambda>t. t \<noteq> []) marks)))"

definition keyFor :: "string list \<Rightarrow> json option \<Rightarrow> string" where
  "keyFor marks hyperlink =
     marksKey marks @ ''::'' @
       (case hyperlink of Some d \<Rightarrow> JSON_stringify (data_or_empty (Some d)) | None \<Rightarrow> [])"

text \<open>
  \<open>buildInlineBlockFromSpans\<close>: the local variables of the function, \<open>flushText\<close>, the body
  of the loop over the spans, and the function itself. The object literals of the source
  fix the property order of the nodes built: \<open>{ nodeType, value, marks, data }\<close> for a text
  node, \<open>{ nodeType, data, content }\<close> for a hyperlink and for the block.
\<close>

record builder =
  b_content :: "node list"
  currentHyperlink :: "json option"
  currentMarksKey :: string
  currentMarks :: "string list"
  currentText :: string

definition flushText :: "builder \<Rightarrow> builder" where
  "flushText st =
     (if currentText st = [] then st
      else (let textNode = Node ''text'' (Some (JObj [])) None (Some (currentText st))
                             (Some (currentMarks st)) [''nodeType'', ''value'', ''marks'', ''data'']
            in st\<lparr>b_content := b_content st @
                      [case currentHyperlink st of
                         Some d \<Rightarrow> Node ''hyperlink'' (Some (data_or_empty (Some d)))
                                     (Some [textNode]) None None
                                     [''nodeType'', ''data'', ''content'']
                       | None \<Rightarrow> textNode],
                    currentText := []\<rparr>))"

definition buildStep :: "builder \<Rightarrow> span \<Rightarrow> builder" where
  "buildStep st s =
     (let k = keyFor (sp_marks s) (sp_hyperlink s);
          st1 = (if k \<noteq> currentMarksKey st
                 then (flushText st)\<lparr>currentMarksKey := k,
                        currentMarks := normalizeMarks (sp_marks s),
                        currentHyperlink := map_option cloneHyperlink (sp_hyperlink s)\<rparr>
                 else st)
      in st1\<lparr>currentText := currentText st1 @ sp_text s\<rparr>)"

definition buildInlineBlockFromSpans :: "string \<Rightarrow> json \<Rightarrow> span list \<Rightarrow> node" where
  "buildInlineBlockFromSpans ty d spans =
     (let st = flushText (foldl buildStep
                 \<lparr>b_content = [], currentHyperlink = None, currentMarksKey = [],
                  currentMarks = [], currentText = []\<rparr> spans)
      in Node ty (Some (data_or_empty (Some d))) (Some (b_content st)) None None
           [''nodeType'', ''data'', ''content''])"

definition mergeInlineBlock :: "differ \<Rightarrow> node \<Rightarrow> node \<Rightarrow> node" where
  "mergeInlineBlock dmp srcBlock tgtBlock =
     (let srcPara = flattenInlineBlock srcBlock;
          tgtPara = flattenInlineBlock tgtBlock;
          diffs = dmp (fl_text tgtPara) (fl_text srcPara);
          mergedSpans = rebuildSpansFromDiffs diffs (fl_spans tgtPara)
      in buildInlineBlockFromSpans (nodeType tgtBlock) (data_or_empty (ndata tgtBlock)) mergedSpans)"

definition isInlineBlockType :: "string \<Rightarrow> bool" where
  "isInlineBlockType ty =
     (ty = ''paragraph'' \<or> ty = ''heading-1'' \<or> ty = ''heading-2'' \<or> ty = ''heading-3'' \<or>
      ty = ''heading-4'' \<or> ty = ''heading-5'' \<or> ty = ''heading-6'' \<or> ty = ''blockquote'')"

text \<open>
  \<open>jsonEq(a, b)\<close> compares \<open>JSON.stringify\<close> of the two nodes. \<open>node_json\<close> is the node as
  the JSON object it is: its properties that are present, in the order of \<open>nkeys\<close>.
\<close>

definition ordered_props :: "string list \<Rightarrow> (string \<times> json option) list \<Rightarrow> (string \<times> json) list" where
  "ordered_props ks props =
     concat (map (\<lambda>k. case map_of props k of Some (Some j) \<Rightarrow> [(k, j)] | _ \<Rightarrow> []) ks)"

fun node_json :: "node \<Rightarrow> json" where
  "node_json (Node ty d c v m ks) =
     JObj (ordered_props ks
       [(''nodeType'', Some (JStr ty)),
        (''data'', d),
        (''content'', map_option (\<lambda>ns. JArr (map node_json ns)) c),
        (''value'', map_option JStr v),
        (''marks'', map_option (\<lambda>ms. JArr (map (\<lambda>t. JObj [(''type'', JStr t)]) ms)) m)])"

definition jsonEq :: "node \<Rightarrow> node \<Rightarrow> bool" where
  "jsonEq a b = (JSON_stringify (node_json a) = JSON_stringify (node_json b))"

text \<open>
  \<open>xs[i]\<close> on an array: \<open>undefined\<close> (\<open>None\<close>) beyond the end.
\<close>

definition nth_opt :: "'a list \<Rightarrow> nat \<Rightarrow> 'a option" where
  "nth_opt xs i = (if i < length xs then Some (xs ! i) else None)"

definition content_or_empty :: "node \<Rightarrow> node list" where
  "content_or_empty n = (case ncontent n of Some c \<Rightarrow> c | None \<Rightarrow> [])"

text \<open>
  The assignment \<open>n.content = cs\<close>: an existing property keeps its place, a new one goes
  last.
\<close>

fun set_content :: "node \<Rightarrow> node list \<Rightarrow> node" where
  "set_content (Node ty d c v m ks) cs =
     Node ty d (Some cs) v m (if ''content'' \<in> set ks then ks else ks @ [''content''])"

text \<open>
  \<open>mergeListBlock\<close>: the body of the inner loop over the children of a list item, the body
  of the loop over the items, and the function. Nodes are objects, hence truthy, so
  \<open>!ct && cs\<close> holds exactly when the target has no node at this index and the source has
  one. Within the loop bounds at least one side has a node.
\<close>

definition mergeChildAt :: "differ \<Rightarrow> node option \<Rightarrow> node option \<Rightarrow> node list" where
  "mergeChildAt dmp cs ct =
     (case (cs, ct) of
        (Some s, None) \<Rightarrow> [s]
      | (None, Some t) \<Rightarrow> [t]
      | (Some s, Some t) \<Rightarrow>
          if nodeType s = nodeType t then
            (if isInlineBlockType (nodeType t) then [mergeInlineBlock dmp s t]
             else if jsonEq s t then [t] else [t, s])
          else [t, s]
      | (None, None) \<Rightarrow> [])"

definition mergeItemAt :: "differ \<Rightarrow> node option \<Rightarrow> node option \<Rightarrow> node list" where
  "mergeItemAt dmp srcItem tgtItem =
     (case (srcItem, tgtItem) of
        (Some s, None) \<Rightarrow> [s]
      | (None, Some t) \<Rightarrow> [t]
      | (Some s, Some t) \<Rightarrow>
          if nodeType s \<noteq> nodeType t then [t, s]
          else (let childSrc = content_or_empty s;
                    childTgt = content_or_empty t;
                    maxChild = max (length childSrc) (length childTgt);
                    childMerged = concat (map (\<lambda>j. mergeChildAt dmp (nth_opt childSrc j) (nth_opt childTgt j))
                                    [0..<maxChild])
                in [set_content t childMerged])
      | (None, None) \<Rightarrow> [])"

definition mergeListBlock :: "differ \<Rightarrow> node \<Rightarrow> node \<Rightarrow> node" where
  "mergeListBlock dmp srcList tgtList =
     (let srcItems = content_or_empty srcList;
          tgtItems = content_or_empty tgtList;
          maxLen = max (length srcItems) (length tgtItems);
          mergedItems = concat (map (\<lambda>i. mergeItemAt dmp (nth_opt srcItems i) (nth_opt tgtItems i))
                          [0..<maxLen])
      in set_content tgtList mergedItems)"

definition isRichTextDocument :: "node \<Rightarrow> bool" where
  "isRichTextDocument val = (nodeType val = ''document'' \<and> ncontent val \<noteq> None)"

text \<open>
  \<open>mergeRichTextDocuments\<close>: the body of the loop over block indices (what it pushes to
  \<open>mergedBlocks\<close> at index \<open>i\<close>) and the function. The \<open>switch\<close> on the target's kind
  is written out case by case. \<open>coalesceAdjacentTextNodesInBlocks\<close> returns its argument.
\<close>

definition mergeBlockAt :: "differ \<Rightarrow> node option \<Rightarrow> node option \<Rightarrow> node list" where
  "mergeBlockAt dmp srcBlock tgtBlock =
     (case (srcBlock, tgtBlock) of
        (Some s, None) \<Rightarrow> [s]
      | (None, Some t) \<Rightarrow> [t]
      | (Some s, Some t) \<Rightarrow>
          if nodeType s \<noteq> nodeType t then [t, s]
          else if nodeType t = ''paragraph'' \<or> nodeType t = ''heading-1'' \<or>
                  nodeType t = ''heading-2'' \<or> nodeType t = ''heading-3'' \<or>
                  nodeType t = ''heading-4'' \<or> nodeType t = ''heading-5'' \<or>
                  nodeType t = ''heading-6'' \<or> nodeType t = ''blockquote''
            then [mergeInlineBlock dmp s t]
          else if nodeType t = ''unordered-list'' \<or> nodeType t = ''ordered-list''
            then [mergeListBlock dmp s t]
          else if jsonEq s t then [t]
          else [t, s]
      | (None, None) \<Rightarrow> [])"

definition mergeRichTextDocuments :: "differ \<Rightarrow> node \<Rightarrow> node \<Rightarrow> node" where
  "mergeRichTextDocuments dmp sourceDoc targetDoc =
     (if \<not> isRichTextDocument sourceDoc \<or> \<not> isRichTextDocument targetDoc then targetDoc
      else (let srcBlocks = content_or_empty sourceDoc;
                tgtBlocks = content_or_empty targetDoc;
                maxLen = max (length srcBlocks) (length tgtBlocks);
                mergedBlocks = concat (map (\<lambda>i. mergeBlockAt dmp (nth_opt srcBlocks i) (nth_opt tgtBlocks i))
                                 [0..<maxLen])
            in set_content targetDoc mergedBlocks))"


section \<open>Adoption traversal (src/unnamed/part_000, adoptTree.js)\<close>

text \<open>
  A record (entry) as the traversal reads it: its version, the id of its content type and
  its fields, \<open>fieldId -> { localeCode -> value }\<close>. A content type lists field definitions,
  of which the traversal reads \<open>id\<close>, \<open>type\<close>, \<open>linkType\<close>, \<open>items.type\<close>, \<open>items.linkType\<close>
  and \<open>localized\<close>. The environment and space ids only route the remote calls; the model
  has one store.
\<close>

type_synonym localeMap = "(string \<times> json) list"
type_synonym fieldMap = "(string \<times> localeMap) list"

record fieldDef =
  fd_id :: string
  fd_type :: string
  fd_linkType :: "string option"
  fd_items_type :: "string option"
  fd_items_linkType :: "string option"
  fd_localized :: bool

record contentType =
  ct_fields :: "fieldDef list"

record entry =
  e_version :: nat
  e_contentType :: string
  e_fields :: fieldMap

text \<open>
  The parameters of one traversal that do not change: the locales, \<open>selected\<close> (entry id to
  the field ids ticked for it), \<open>adoptAll\<close>, and the collaborators: the diff package used by
  the plain-text merge, the structured-document merge as a function on the two JSON values
  (the traversal theorems hold for every such function), and the remote content types.
\<close>

record config =
  sourceLocale :: string
  targetLocale :: string
  defaultLocale :: string
  selected :: "(string \<times> string list) list"
  adoptAll :: bool
  diffLib :: differ
  mergeRichText :: "json \<Rightarrow> json \<Rightarrow> json"
  contentTypes :: "(string \<times> contentType) list"

text \<open>
  Property access \<open>v.k\<close> on a JSON value (absent on anything but an object), the test
  \<open>isRichText\<close>, truthiness of a possibly absent value, \<open>v === undefined || v === null\<close>, and
  \<open>v?.sys?.id\<close> where truthy. Record ids are strings.
\<close>

definition getProp :: "json \<Rightarrow> string \<Rightarrow> json option" where
  "getProp v k = (case v of JObj kvs \<Rightarrow> map_of kvs k | _ \<Rightarrow> None)"

definition isRichText :: "json option \<Rightarrow> bool" where
  "isRichText val =
     (case val of
        Some (JObj kvs) \<Rightarrow>
          map_of kvs ''nodeType'' = Some (JStr ''document'') \<and>
          (case map_of kvs ''content'' of Some (JArr c) \<Rightarrow> True | _ \<Rightarrow> False)
      | _ \<Rightarrow> False)"

definition truthyO :: "json option \<Rightarrow> bool" where
  "truthyO v = (case v of Some j \<Rightarrow> truthy j | None \<Rightarrow> False)"

definition nullish :: "json option \<Rightarrow> bool" where
  "nullish v = (v = None \<or> v = Some JNull)"

definition sysId :: "json option \<Rightarrow> string option" where
  "sysId v =
     (case v of
        None \<Rightarrow> None
      | Some j \<Rightarrow>
          (case getProp j ''sys'' of
             None \<Rightarrow> None
           | Some s \<Rightarrow> (case getProp s ''id'' of Some (JStr i) \<Rightarrow> if i = [] then None else Some i
                        | _ \<Rightarrow> None)))"

text \<open>
  \<open>refIds\<close> is a \<open>Set\<close>: \<open>add\<close> keeps insertion order and ignores an id already present.
\<close>

definition addRef :: "string list \<Rightarrow> string \<Rightarrow> string list" where
  "addRef refIds i = (if i \<in> set refIds then refIds else refIds @ [i])"

definition isArray :: "json option \<Rightarrow> bool" where
  "isArray v = (case v of Some (JArr xs) \<Rightarrow> True | _ \<Rightarrow> False)"

definition linkIds :: "json option \<Rightarrow> string list" where
  "linkIds v =
     (case v of
        Some (JArr xs) \<Rightarrow> concat (map (\<lambda>l. case sysId (Some l) of Some i \<Rightarrow> [i] | None \<Rightarrow> []) xs)
      | _ \<Rightarrow> [])"

text \<open>
  \<open>JSON.stringify(a) !== JSON.stringify(b)\<close>.
\<close>

definition strDiffers :: "json option \<Rightarrow> json option \<Rightarrow> bool" where
  "strDiffers a b = (map_option JSON_stringify a \<noteq> map_option JSON_stringify b)"

text \<open>
  The variables the loop over \<open>contentType.fields\<close> updates, and the assignment
  \<open>newFields[fieldId] = { ...localizedValues, [targetLocale]: v }; changed++\<close>.
\<close>

record loopState =
  newFields :: fieldMap
  changed :: nat
  refIds :: "string list"

definition assign :: "config \<Rightarrow> string \<Rightarrow> localeMap \<Rightarrow> json \<Rightarrow> loopState \<Rightarrow> loopState" where
  "assign cfg fieldId localizedValues v st =
     st\<lparr>newFields := AList.update fieldId (AList.update (targetLocale cfg) v localizedValues)
                        (newFields st),
        changed := changed st + 1\<rparr>"

text \<open>
  \<open>localizedValues?.[defaultLocale] ?? Object.values(localizedValues || {})[0]\<close>.
\<close>

definition defaultOrFirst :: "config \<Rightarrow> localeMap \<Rightarrow> json option" where
  "defaultOrFirst cfg localizedValues =
     (if nullish (map_of localizedValues (defaultLocale cfg))
      then (case localizedValues of [] \<Rightarrow> None | kv # _ \<Rightarrow> Some (snd kv))
      else map_of localizedValues (defaultLocale cfg))"

text \<open>
  The three branches of the loop body: a single entry link, an array of entry links, and any
  other localized field. \<open>allowed\<close> is \<open>adoptAll || allowedForThisEntry.has(fieldId)\<close>.
\<close>

definition entryLinkField :: "config \<Rightarrow> bool \<Rightarrow> fieldDef \<Rightarrow> localeMap \<Rightarrow> loopState \<Rightarrow> loopState" where
  "entryLinkField cfg allowed fieldDef localizedValues st =
     (if fd_localized fieldDef then
        (let srcLink = map_of localizedValues (sourceLocale cfg);
             tgtLink = map_of localizedValues (targetLocale cfg);
             st1 = (case srcLink of
                      Some v \<Rightarrow>
                        if nullish tgtLink \<and> truthy v \<and> allowed
                        then assign cfg (fd_id fieldDef) localizedValues v st else st
                    | None \<Rightarrow> st);
             st2 = (case srcLink of
                      Some v \<Rightarrow>
                        if allowed \<and> truthy v \<and> truthyO tgtLink \<and> strDiffers srcLink tgtLink
                        then assign cfg (fd_id fieldDef) localizedValues v st1 else st1
                    | None \<Rightarrow> st1)
         in (case (case sysId srcLink of Some i \<Rightarrow> Some i | None \<Rightarrow> sysId tgtLink) of
               Some refId \<Rightarrow> st2\<lparr>refIds := addRef (refIds st2) refId\<rparr>
             | None \<Rightarrow> st2))
      else
        (case sysId (defaultOrFirst cfg localizedValues) of
           Some refId \<Rightarrow> st\<lparr>refIds := addRef (refIds st) refId\<rparr>
         | None \<Rightarrow> st))"

definition entryLinkArrayField :: "config \<Rightarrow> bool \<Rightarrow> fieldDef \<Rightarrow> localeMap \<Rightarrow> loopState \<Rightarrow> loopState" where
  "entryLinkArrayField cfg allowed fieldDef localizedValues st =
     (if fd_localized fieldDef then
        (let srcArr = map_of localizedValues (sourceLocale cfg);
             tgtArr = map_of localizedValues (targetLocale cfg);
             st1 = (case srcArr of
                      Some v \<Rightarrow>
                        if nullish tgtArr \<and> truthy v \<and> allowed
                        then assign cfg (fd_id fieldDef) localizedValues v st else st
                    | None \<Rightarrow> st);
             st2 = (case srcArr of
                      Some v \<Rightarrow>
                        if allowed \<and> isArray srcArr \<and> isArray tgtArr \<and> strDiffers srcArr tgtArr
                        then assign cfg (fd_id fieldDef) localizedValues v st1 else st1
                    | None \<Rightarrow> st1)
         in st2\<lparr>refIds := foldl addRef (refIds st2) (linkIds srcArr @ linkIds tgtArr)\<rparr>)
      else st\<lparr>refIds := foldl addRef (refIds st) (linkIds (defaultOrFirst cfg localizedValues))\<rparr>)"

definition asString :: "json option \<Rightarrow> string option" where
  "asString v = (case v of Some (JStr s) \<Rightarrow> Some s | _ \<Rightarrow> None)"

definition localizedValueField :: "config \<Rightarrow> bool \<Rightarrow> fieldDef \<Rightarrow> localeMap \<Rightarrow> loopState \<Rightarrow> loopState" where
  "localizedValueField cfg allowed fieldDef localizedValues st =
     (if \<not> allowed then st
      else
        (let srcVal = map_of localizedValues (sourceLocale cfg);
             tgtVal = map_of localizedValues (targetLocale cfg)
         in if nullish tgtVal then
              (case srcVal of
                 Some v \<Rightarrow> assign cfg (fd_id fieldDef) localizedValues v st
               | None \<Rightarrow> st)
            else
              (case (asString srcVal, asString tgtVal) of
                 (Some s, Some t) \<Rightarrow>
                   (let merged = mergeSourceAdditionsIntoTarget (diffLib cfg) s t
                    in if merged \<noteq> t
                       then assign cfg (fd_id fieldDef) localizedValues (JStr merged) st else st)
               | _ \<Rightarrow>
                   if isRichText srcVal \<and> isRichText tgtVal then
                     (case (srcVal, tgtVal) of
                        (Some s, Some t) \<Rightarrow>
                          (let mergedDoc = mergeRichText cfg s t
                           in if JSON_stringify mergedDoc \<noteq> JSON_stringify t
                              then assign cfg (fd_id fieldDef) localizedValues mergedDoc st else st)
                      | _ \<Rightarrow> st)
                   else if isRichText srcVal \<and> \<not> isRichText tgtVal then st
                   else
                     (case srcVal of
                        Some v \<Rightarrow>
                          if strDiffers srcVal tgtVal
                          then assign cfg (fd_id fieldDef) localizedValues v st else st
                      | None \<Rightarrow> st))))"

text \<open>
  The loop body and the loop. \<open>fields[fieldId]\<close> is a locale map when present, hence truthy.
\<close>

definition processField :: "config \<Rightarrow> string list \<Rightarrow> fieldMap \<Rightarrow> loopState \<Rightarrow> fieldDef \<Rightarrow> loopState" where
  "processField cfg allowedForThisEntry entryFields st fieldDef =
     (case map_of entryFields (fd_id fieldDef) of
        None \<Rightarrow> st
      | Some localizedValues \<Rightarrow>
          (let allowed = (adoptAll cfg \<or> fd_id fieldDef \<in> set allowedForThisEntry)
           in if fd_type fieldDef = ''Link'' \<and> fd_linkType fieldDef = Some ''Entry''
              then entryLinkField cfg allowed fieldDef localizedValues st
              else if fd_type fieldDef = ''Array'' \<and> fd_items_type fieldDef = Some ''Link''
                      \<and> fd_items_linkType fieldDef = Some ''Entry''
              then entryLinkArrayField cfg allowed fieldDef localizedValues st
              else if fd_localized fieldDef
              then localizedValueField cfg allowed fieldDef localizedValues st
              else st))"

definition processFields :: "config \<Rightarrow> string \<Rightarrow> entry \<Rightarrow> contentType \<Rightarrow> loopState" where
  "processFields cfg entryId entry contentType =
     foldl (processField cfg (case map_of (selected cfg) entryId of Some fs \<Rightarrow> fs | None \<Rightarrow> [])
              (e_fields entry))
       \<lparr>newFields = e_fields entry, changed = 0, refIds = []\<rparr>
       (ct_fields contentType)"


text \<open>
  The remote side: the store of records and the calls issued through \<open>callCMA\<close>, in order.
  \<open>visited\<close> and \<open>ctCache\<close> are the objects shared by reference through the recursion.
  A remote read of an id the store does not hold fails; the failure propagates to the caller.
\<close>

datatype call = GetEntry string | GetContentType string | UpdateEntry string nat

record state =
  visited :: "string list"
  ctCache :: "(string \<times> contentType) list"
  store :: "(string \<times> entry) list"
  remoteCalls :: "call list"

record summary =
  updatedEntries :: nat
  changedFields :: nat
  traversedEntries :: nat

definition notFound :: failure where
  "notFound = \<lparr>status = Some 404, sys_id = Some ''NotFound'', detail = []\<rparr>"

definition fetchContentType :: "config \<Rightarrow> state \<Rightarrow> string \<Rightarrow> (failure + contentType) \<times> state" where
  "fetchContentType cfg st ctId =
     (case map_of (ctCache st) ctId of
        Some ct \<Rightarrow> (Inr ct, st)
      | None \<Rightarrow>
          (let st1 = st\<lparr>remoteCalls := remoteCalls st @ [GetContentType ctId]\<rparr>
           in case map_of (contentTypes cfg) ctId of
                None \<Rightarrow> (Inl notFound, st1)
              | Some ct \<Rightarrow> (Inr ct, st1\<lparr>ctCache := AList.update ctId ct (ctCache st1)\<rparr>)))"

text \<open>
  The body of \<open>adoptEntryTree\<close> between the visited check and the recursion into the
  children: mark the id visited, fetch the record and its content type, run the field loop,
  write the record back when a field changed. It yields the child ids and the summary so
  far, or the failure thrown.
\<close>

definition visitEntry :: "config \<Rightarrow> state \<Rightarrow> string \<Rightarrow> (failure + string list \<times> summary) \<times> state" where
  "visitEntry cfg st entryId =
     (let st1 = st\<lparr>visited := visited st @ [entryId], remoteCalls := remoteCalls st @ [GetEntry entryId]\<rparr>
      in case map_of (store st1) entryId of
           None \<Rightarrow> (Inl notFound, st1)
         | Some entry \<Rightarrow>
             (case fetchContentType cfg st1 (e_contentType entry) of
                (Inl e, st2) \<Rightarrow> (Inl e, st2)
              | (Inr contentType, st2) \<Rightarrow>
                  (let r = processFields cfg entryId entry contentType;
                       st3 = (if changed r > 0
                              then st2\<lparr>store := AList.update entryId
                                          (entry\<lparr>e_fields := newFields r, e_version := e_version entry + 1\<rparr>)
                                          (store st2),
                                        remoteCalls := remoteCalls st2 @ [UpdateEntry entryId (e_version entry)]\<rparr>
                              else st2);
                       summary = \<lparr>updatedEntries = (if changed r > 0 then 1 else 0),
                                  changedFields = (if changed r > 0 then changed r else 0),
                                  traversedEntries = 1\<rparr>
                   in (Inr (refIds r, summary), st3))))"

definition addSummary :: "summary \<Rightarrow> summary \<Rightarrow> summary" where
  "addSummary a s =
     \<lparr>updatedEntries = updatedEntries a + updatedEntries s,
      changedFields = changedFields a + changedFields s,
      traversedEntries = traversedEntries a + traversedEntries s\<rparr>"

definition zeroSummary :: summary where
  "zeroSummary = \<lparr>updatedEntries = 0, changedFields = 0, traversedEntries = 0\<rparr>"

text \<open>
  \<open>adoptEntryTree\<close> and its loop over \<open>refIds\<close>. The recursion is through shared mutable state
  and carries fuel that bounds its depth: \<open>None\<close> means the fuel ran out, not a result of the
  program.
\<close>

fun adoptEntryTree :: "nat \<Rightarrow> config \<Rightarrow> state \<Rightarrow> string \<Rightarrow> ((failure + summary) \<times> state) option"
  and adoptChildren :: "nat \<Rightarrow> config \<Rightarrow> state \<Rightarrow> string list \<Rightarrow> summary \<Rightarrow> ((failure + summary) \<times> state) option"
where
  "adoptEntryTree 0 cfg st entryId = None"
| "adoptEntryTree (Suc fuel) cfg st entryId =
     (if entryId = [] \<or> entryId \<in> set (visited st) then Some (Inr zeroSummary, st)
      else (case visitEntry cfg st entryId of
              (Inl e, st1) \<Rightarrow> Some (Inl e, st1)
            | (Inr (children, summary), st1) \<Rightarrow> adoptChildren fuel cfg st1 children summary))"
| "adoptChildren fuel cfg st [] summary = Some (Inr summary, st)"
| "adoptChildren fuel cfg st (childId # rest) summary =
     (case adoptEntryTree fuel cfg st childId of
        None \<Rightarrow> None
      | Some (Inl e, st1) \<Rightarrow> Some (Inl e, st1)
      | Some (Inr s, st1) \<Rightarrow> adoptChildren fuel cfg st1 rest (addSummary summary s))"


section \<open>Notions used in the statements\<close>

text \<open>
  The kinds the spec names as merged into one block: the inline-bearing kinds (paragraph,
  the six heading levels, blockquote) and the two list kinds. Two blocks at a shared index
  diverge when their kinds differ, or when they have the same kind, that kind is not one of
  these, and the two blocks are not structurally identical, that is, their
  \<open>JSON.stringify\<close> texts differ.
\<close>

definition merged_in_place :: "string list" where
  "merged_in_place =
     [''paragraph'', ''heading-1'', ''heading-2'', ''heading-3'', ''heading-4'', ''heading-5'',
      ''heading-6'', ''blockquote'', ''unordered-list'', ''ordered-list'']"

definition diverges :: "node \<Rightarrow> node \<Rightarrow> bool" where
  "diverges s t =
     (nodeType s \<noteq> nodeType t \<or>
      (nodeType t \<notin> set merged_in_place \<and>
       JSON_stringify (node_json s) \<noteq> JSON_stringify (node_json t)))"

text \<open>
  The written field map against the fetched one: the same field ids in the same order, and
  each locale map either as fetched or as fetched with the target locale set.
\<close>

definition frame :: "string \<Rightarrow> fieldMap \<Rightarrow> fieldMap \<Rightarrow> bool" where
  "frame loc fetched written =
     (map fst written = map fst fetched \<and>
      (\<forall>fieldId lv. map_of fetched fieldId = Some lv \<longrightarrow>
         (\<exists>lv'. map_of written fieldId = Some lv' \<and>
            (lv' = lv \<or> (\<exists>v. lv' = AList.update loc v lv)))))"

text \<open>The effect of one branch of the field loop on \<open>newFields\<close>.\<close>

definition touched :: "config \<Rightarrow> string \<Rightarrow> localeMap \<Rightarrow> loopState \<Rightarrow> loopState \<Rightarrow> bool" where
  "touched cfg fid lv st st' =
     (newFields st' = newFields st \<or>
      (\<exists>v. newFields st' = AList.update fid (AList.update (targetLocale cfg) v lv) (newFields st)))"

text \<open>
  The record ids fetched, in order, in a list of remote calls; the number of stored records
  not yet visited; the visited-set discipline (no id fetched twice, every fetched id
  visited); and how a traversal step may change the state.
\<close>

definition fetchedIds :: "call list \<Rightarrow> string list" where
  "fetchedIds cs = concat (map (\<lambda>c. case c of GetEntry i \<Rightarrow> [i] | _ \<Rightarrow> []) cs)"

definition pending :: "state \<Rightarrow> nat" where
  "pending st = card (fst ` set (store st) - set (visited st))"

definition once :: "state \<Rightarrow> bool" where
  "once st = (distinct (fetchedIds (remoteCalls st)) \<and> set (fetchedIds (remoteCalls st)) \<subseteq> set (visited st))"

definition grows :: "state \<Rightarrow> state \<Rightarrow> bool" where
  "grows st st' =
     (set (visited st) \<subseteq> set (visited st') \<and> fst ` set (store st') = fst ` set (store st) \<and>
      (once st \<longrightarrow> once st'))"

text \<open>
  The formatting of a span as the merge compares it: what \<open>sameMarks\<close> and \<open>sameHyperlink\<close>
  look at (the number of marks, their sorted types joined, and the printed hyperlink data).
  \<open>styled\<close> spells a span list out character by character, each character with the
  formatting of its span.
\<close>

type_synonym format = "nat \<times> string \<times> string option"

definition formatOf :: "span \<Rightarrow> format" where
  "formatOf s =
     (length (sp_marks s), marksKey (sp_marks s),
      map_option (\<lambda>d. JSON_stringify (data_or_empty (Some d))) (sp_hyperlink s))"

definition plain :: format where
  "plain = (0, [], None)"

definition styled :: "span list \<Rightarrow> (char \<times> format) list" where
  "styled spans = concat (map (\<lambda>s. map (\<lambda>c. (c, formatOf s)) (sp_text s)) spans)"

text \<open>
  The formatting an insertion at position \<open>c\<close> of the target text is to receive, following
  the spec: that of the target character at \<open>c\<close> (the span covering the insertion point),
  that of the last target character when \<open>c\<close> is the end of the text, and no formatting when
  the target has no text. \<open>woven\<close> is the merged text this prescribes for a diff: equal and
  delete spans take the target's characters with their formatting, insert spans take the
  diff's text with the inherited formatting.
\<close>

definition inherited :: "(char \<times> format) list \<Rightarrow> nat \<Rightarrow> format" where
  "inherited T c =
     (if c < length T then snd (T ! c)
      else if c = length T \<and> T \<noteq> [] then snd (last T)
      else plain)"

fun woven :: "(char \<times> format) list \<Rightarrow> diff list \<Rightarrow> nat \<Rightarrow> (char \<times> format) list" where
  "woven T [] c = []"
| "woven T (d # ds) c =
     (if fst d = 0 \<or> fst d = - 1
        then take (length (snd d)) (drop c T) @ woven T ds (c + length (snd d))
      else if fst d = 1
        then map (\<lambda>ch. (ch, inherited T c)) (snd d) @ woven T ds c
      else woven T ds c)"

text \<open>
  Spans that tile the text from an offset: each starts where the previous one ends, is not
  empty, and is as long as its text. \<open>flatInv\<close> is the invariant of the accumulator of
  \<open>walk\<close>.
\<close>

fun tiled :: "int \<Rightarrow> span list \<Rightarrow> bool" where
  "tiled off [] = True"
| "tiled off (s # ss) =
     (sp_start s = off \<and> sp_text s \<noteq> [] \<and> sp_end s = off + int (length (sp_text s)) \<and>
      tiled (sp_end s) ss)"

definition flatInv :: "span list \<times> string \<Rightarrow> bool" where
  "flatInv acc = (tiled 0 (fst acc) \<and> concat (map sp_text (fst acc)) = snd acc)"

text \<open>Sample documents and a one-record store, for the concrete instances below.\<close>

definition tnode :: "string \<Rightarrow> string list \<Rightarrow> node" where
  "tnode v ms = Node ''text'' (Some (JObj [])) None (Some v) (Some ms)
     [''nodeType'', ''value'', ''marks'', ''data'']"

definition para :: "node list \<Rightarrow> node" where
  "para ns = Node ''paragraph'' (Some (JObj [])) (Some ns) None None
     [''nodeType'', ''data'', ''content'']"

definition bullets :: "node list \<Rightarrow> node" where
  "bullets items = Node ''unordered-list'' (Some (JObj [])) (Some items) None None
     [''nodeType'', ''data'', ''content'']"

definition listItem :: "node list \<Rightarrow> node" where
  "listItem ns = Node ''list-item'' (Some (JObj [])) (Some ns) None None
     [''nodeType'', ''data'', ''content'']"

definition doc :: "node list \<Rightarrow> node" where
  "doc ns = Node ''document'' (Some (JObj [])) (Some ns) None None
     [''nodeType'', ''data'', ''content'']"

definition asset :: "string \<Rightarrow> node" where
  "asset i = Node ''embedded-asset-block'' (Some (JObj [(''id'', JStr i)])) (Some []) None None
     [''nodeType'', ''data'', ''content'']"

text \<open>The same block with its properties held in another order.\<close>

definition assetReordered :: "string \<Rightarrow> node" where
  "assetReordered i = Node ''embedded-asset-block'' (Some (JObj [(''id'', JStr i)])) (Some []) None None
     [''data'', ''content'', ''nodeType'']"

definition richDoc :: json where
  "richDoc = JObj [(''nodeType'', JStr ''document''), (''data'', JObj []), (''content'', JArr [])]"

definition bodyType :: contentType where
  "bodyType = \<lparr>ct_fields = [\<lparr>fd_id = ''body'', fd_type = ''Object'', fd_linkType = None,
     fd_items_type = None, fd_items_linkType = None, fd_localized = True\<rparr>]\<rparr>"

definition bodyConfig :: config where
  "bodyConfig = \<lparr>sourceLocale = ''en'', targetLocale = ''de'', defaultLocale = ''en'',
     selected = [], adoptAll = True,
     diffLib = (\<lambda>old new. if old = new then [(0, old)] else [(- 1, old), (1, new)]),
     mergeRichText = (\<lambda>s t. t), contentTypes = [(''article'', bodyType)]\<rparr>"

definition bodyState :: "json \<Rightarrow> json \<Rightarrow> state" where
  "bodyState src tgt = \<lparr>visited = [], ctCache = [],
     store = [(''E1'', \<lparr>e_version = 7, e_contentType = ''article'',
                 e_fields = [(''body'', [(''en'', src), (''de'', tgt)])]\<rparr>)],
     remoteCalls = []\<rparr>"


text \<open>Two records that link to each other.\<close>

definition cycleType :: contentType where
  "cycleType = \<lparr>ct_fields = [
     \<lparr>fd_id = ''title'', fd_type = ''Symbol'', fd_linkType = None, fd_items_type = None,
      fd_items_linkType = None, fd_localized = True\<rparr>,
     \<lparr>fd_id = ''next'', fd_type = ''Link'', fd_linkType = Some ''Entry'', fd_items_type = None,
      fd_items_linkType = None, fd_localized = False\<rparr>]\<rparr>"

definition linkTo :: "string \<Rightarrow> json" where
  "linkTo i = JObj [(''sys'', JObj [(''type'', JStr ''Link''), (''linkType'', JStr ''Entry''),
                                   (''id'', JStr i)])]"

definition cycleConfig :: config where
  "cycleConfig = \<lparr>sourceLocale = ''en'', targetLocale = ''de'', defaultLocale = ''en'',
     selected = [], adoptAll = True,
     diffLib = (\<lambda>old new. if old = new then [(0, old)] else [(- 1, old), (1, new)]),
     mergeRichText = (\<lambda>s t. t), contentTypes = [(''page'', cycleType)]\<rparr>"

definition cycleState :: state where
  "cycleState = \<lparr>visited = [], ctCache = [],
     store = [(''A'', \<lparr>e_version = 1, e_contentType = ''page'',
                 e_fields = [(''title'', [(''en'', JStr ''Welcome'')]),
                             (''next'', [(''en'', linkTo ''B'')])]\<rparr>),
              (''B'', \<lparr>e_version = 3, e_contentType = ''page'',
                 e_fields = [(''title'', [(''en'', JStr ''Hi''), (''de'', JStr ''Hi'')]),
                             (''next'', [(''en'', linkTo ''A'')])]\<rparr>)],
     remoteCalls = []\<rparr>"

section \<open>Properties of the plain-text merge\<close>

lemma foldl_appendSpan_acc:
  "foldl appendSpan acc ds = acc @ foldl appendSpan [] ds"
proof (induction ds arbitrary: acc)
  case Nil
  show ?case by simp
next
  case (Cons d ds)
  have "foldl appendSpan (appendSpan acc d) ds = appendSpan acc d @ foldl appendSpan [] ds"
    by (rule Cons.IH)
  moreover have "foldl appendSpan (appendSpan [] d) ds = appendSpan [] d @ foldl appendSpan [] ds"
    by (rule Cons.IH)
  moreover have "appendSpan acc d = acc @ appendSpan [] d"
    by (simp add: appendSpan_def)
  ultimately show ?case by simp
qed

lemma foldl_appendSpan_Cons:
  "foldl appendSpan [] (d # ds) = appendSpan [] d @ foldl appendSpan [] ds"
  using foldl_appendSpan_acc [of "appendSpan [] d" ds] by simp

lemma subseq_text1_merged: "subseq (diff_text1 ds) (foldl appendSpan [] ds)"
proof (induction ds)
  case Nil
  show ?case by (simp add: diff_text1_def)
next
  case (Cons d ds)
  have rest: "subseq (diff_text1 ds) (foldl appendSpan [] ds)" by (rule Cons.IH)
  show ?case
  proof (cases "fst d = 0 \<or> fst d = - 1")
    case True
    then have "diff_text1 (d # ds) = snd d @ diff_text1 ds" by (simp add: diff_text1_def)
    moreover have "appendSpan [] d = snd d" using True by (auto simp: appendSpan_def)
    ultimately show ?thesis
      using rest unfolding foldl_appendSpan_Cons by (simp add: subseq_append')
  next
    case False
    then have "diff_text1 (d # ds) = diff_text1 ds" by (simp add: diff_text1_def)
    then show ?thesis
      using rest unfolding foldl_appendSpan_Cons by (simp add: list_emb_append2)
  qed
qed

lemma subseq_text2_merged: "subseq (diff_text2 ds) (foldl appendSpan [] ds)"
proof (induction ds)
  case Nil
  show ?case by (simp add: diff_text2_def)
next
  case (Cons d ds)
  have rest: "subseq (diff_text2 ds) (foldl appendSpan [] ds)" by (rule Cons.IH)
  show ?case
  proof (cases "fst d = 0 \<or> fst d = 1")
    case True
    then have "diff_text2 (d # ds) = snd d @ diff_text2 ds" by (simp add: diff_text2_def)
    moreover have "appendSpan [] d = snd d" using True by (auto simp: appendSpan_def)
    ultimately show ?thesis
      using rest unfolding foldl_appendSpan_Cons by (simp add: subseq_append')
  next
    case False
    then have "diff_text2 (d # ds) = diff_text2 ds" by (simp add: diff_text2_def)
    then show ?thesis
      using rest unfolding foldl_appendSpan_Cons by (simp add: list_emb_append2)
  qed
qed

text \<open>
  Merging the source into an already merged text gives that text back exactly when the
  diff from the merged text to the source inserts nothing. Whether it does is a property of
  the diff package, which its contract on the two texts leaves open.
\<close>

lemma length_merged:
  "length (foldl appendSpan [] ds) = length (diff_text1 ds) + length (inserted_text ds)"
proof (induction ds)
  case Nil
  show ?case by (simp add: diff_text1_def inserted_text_def)
next
  case (Cons d ds)
  have "length (appendSpan [] d) + (length (diff_text1 ds) + length (inserted_text ds))
      = length (diff_text1 (d # ds)) + length (inserted_text (d # ds))"
    by (simp add: appendSpan_def diff_text1_def inserted_text_def)
  then show ?case unfolding foldl_appendSpan_Cons using Cons.IH by simp
qed

lemma merged_without_inserts:
  "inserted_text ds = [] \<Longrightarrow> foldl appendSpan [] ds = diff_text1 ds"
proof (induction ds)
  case Nil
  show ?case by (simp add: diff_text1_def)
next
  case (Cons d ds)
  have i: "inserted_text ds = []" and e: "fst d = 1 \<longrightarrow> snd d = []"
    using Cons.prems by (auto simp: inserted_text_def)
  have "appendSpan [] d @ diff_text1 ds = diff_text1 (d # ds)"
    using e by (auto simp: appendSpan_def diff_text1_def)
  then show ?case unfolding foldl_appendSpan_Cons using Cons.IH [OF i] by simp
qed

lemma remerge_fixed_iff_no_insert:
  assumes "diff_text1 (dmp merged source) = merged"
  shows "mergeSourceAdditionsIntoTarget dmp source merged = merged
         \<longleftrightarrow> inserted_text (dmp merged source) = []"
proof
  assume "mergeSourceAdditionsIntoTarget dmp source merged = merged"
  then have "length (foldl appendSpan [] (dmp merged source)) = length (diff_text1 (dmp merged source))"
    using assms by (simp add: mergeSourceAdditionsIntoTarget_def)
  then show "inserted_text (dmp merged source) = []"
    using length_merged [of "dmp merged source"] by simp
next
  assume "inserted_text (dmp merged source) = []"
  then show "mergeSourceAdditionsIntoTarget dmp source merged = merged"
    using merged_without_inserts [of "dmp merged source"] assms
    by (simp add: mergeSourceAdditionsIntoTarget_def)
qed

text \<open>
  C1, as stated: the target is a contiguous subsequence (\<open>sublist\<close>) of the merged text.
  The spec's own scenario refutes it: target \<open>Hello world.\<close> and source
  \<open>Hello world, new sentence.\<close> share the prefix \<open>Hello world\<close> and the suffix \<open>.\<close>, so
  the diff is equal, insert, equal, and the merged text is the source, in which the target's
  final full stop no longer follows \<open>world\<close>.
\<close>

theorem merge_target_contiguous_counterexample:
  "diff_text1 [(0, ''Hello world''), (1, '', new sentence''), (0, ''.'')] = ''Hello world.''
   \<and> diff_text2 [(0, ''Hello world''), (1, '', new sentence''), (0, ''.'')]
       = ''Hello world, new sentence.''
   \<and> mergeSourceAdditionsIntoTarget
         (\<lambda>old new. [(0, ''Hello world''), (1, '', new sentence''), (0, ''.'')])
         ''Hello world, new sentence.'' ''Hello world.'' = ''Hello world, new sentence.''
   \<and> \<not> sublist ''Hello world.''
         (mergeSourceAdditionsIntoTarget
           (\<lambda>old new. [(0, ''Hello world''), (1, '', new sentence''), (0, ''.'')])
           ''Hello world, new sentence.'' ''Hello world.'')"
  by code_simp

text \<open>
  C1, amended: whenever the diff handed back describes the target as its old text, the target
  is a subsequence (in order, not necessarily contiguous) of the merged text: no character
  of the target is deleted.
\<close>

theorem merge_keeps_target:
  assumes "diff_text1 (dmp target source) = target"
  shows "subseq target (mergeSourceAdditionsIntoTarget dmp source target)"
  using assms subseq_text1_merged [of "dmp target source"]
  by (simp add: mergeSourceAdditionsIntoTarget_def)

theorem merge_keeps_target_witness:
  "diff_text1 ((\<lambda>old new. [(0, ''a''), (1, ''b''), (0, ''c'')]) ''ac'' ''abc'') = ''ac''
   \<and> subseq ''ac''
        (mergeSourceAdditionsIntoTarget (\<lambda>old new. [(0, ''a''), (1, ''b''), (0, ''c'')])
           ''abc'' ''ac'')"
proof -
  have h: "diff_text1 ((\<lambda>old new. [(0, ''a''), (1, ''b''), (0, ''c'')]) ''ac'' ''abc'') = ''ac''"
    by (simp add: diff_text1_def)
  show ?thesis
    using h merge_keeps_target [of "\<lambda>old new. [(0, ''a''), (1, ''b''), (0, ''c'')]" "''ac''" "''abc''"]
    by simp
qed

text \<open>
  C9: whenever the diff handed back describes the target as its old text and the source as
  its new text, the merged text contains every character of the source in order and every
  character of the target in order: it is a common supersequence of both.
\<close>

theorem merge_common_supersequence:
  assumes "diff_text1 (dmp target source) = target"
    and "diff_text2 (dmp target source) = source"
  shows "subseq source (mergeSourceAdditionsIntoTarget dmp source target)
         \<and> subseq target (mergeSourceAdditionsIntoTarget dmp source target)"
  using assms subseq_text1_merged [of "dmp target source"]
    subseq_text2_merged [of "dmp target source"]
  by (simp add: mergeSourceAdditionsIntoTarget_def)

theorem merge_common_supersequence_witness:
  "diff_text1 ((\<lambda>old new. [(- 1, ''x''), (0, ''a''), (1, ''b'')]) ''xa'' ''ab'') = ''xa''
   \<and> diff_text2 ((\<lambda>old new. [(- 1, ''x''), (0, ''a''), (1, ''b'')]) ''xa'' ''ab'') = ''ab''
   \<and> subseq ''ab''
        (mergeSourceAdditionsIntoTarget (\<lambda>old new. [(- 1, ''x''), (0, ''a''), (1, ''b'')])
           ''ab'' ''xa'')
   \<and> subseq ''xa''
        (mergeSourceAdditionsIntoTarget (\<lambda>old new. [(- 1, ''x''), (0, ''a''), (1, ''b'')])
           ''ab'' ''xa'')"
proof -
  have h1: "diff_text1 ((\<lambda>old new. [(- 1, ''x''), (0, ''a''), (1, ''b'')]) ''xa'' ''ab'') = ''xa''"
    by (simp add: diff_text1_def)
  have h2: "diff_text2 ((\<lambda>old new. [(- 1, ''x''), (0, ''a''), (1, ''b'')]) ''xa'' ''ab'') = ''ab''"
    by (simp add: diff_text2_def)
  show ?thesis
    using h1 h2
      merge_common_supersequence [of "\<lambda>old new. [(- 1, ''x''), (0, ''a''), (1, ''b'')]"
        "''xa''" "''ab''"]
    by simp
qed

section \<open>Properties of the call gateway\<close>

lemma dropWhile_sorted_filter:
  "sorted calls \<Longrightarrow>
   dropWhile (\<lambda>t. now - t > (w::int)) calls = filter (\<lambda>t. now - t \<le> w) calls"
proof (induction calls)
  case Nil
  show ?case by simp
next
  case (Cons t ts)
  show ?case
  proof (cases "now - t > w")
    case True
    then show ?thesis using Cons by simp
  next
    case False
    have "\<forall>u \<in> set ts. now - u \<le> w" using Cons.prems False by auto
    then have "filter (\<lambda>t. now - t \<le> w) ts = ts" by (simp add: filter_id_conv)
    then show ?thesis using False by simp
  qed
qed

lemma hd_sorted_Min: "sorted (x # xs) \<Longrightarrow> Min (set (x # xs)) = (x::int)"
  by (auto intro!: Min_eqI)

lemma callCMA_from_run:
  assumes "a \<le> k" "k \<le> retries"
    and "\<forall>i. a \<le> i \<and> i < k \<longrightarrow> rate_limited (fn i)"
    and "k = retries \<or> \<not> rate_limited (fn k)"
  shows "callCMA_from fn jitter retries baseDelay a =
     (concat (map (\<lambda>i. [Throttle, Invoke, Sleep (baseDelay * 2 ^ i + jitter i)]) [a..<k])
        @ [Throttle, Invoke], fn k)"
  using assms
proof (induction "k - a" arbitrary: a)
  case 0
  then have ak: "a = k" by simp
  show ?case
  proof (cases "fn k")
    case (Inl e)
    then show ?thesis using 0(5) ak
      by (auto simp: rate_limited_def)
  next
    case (Inr v)
    then show ?thesis using ak by simp
  qed
next
  case (Suc n)
  then have lt: "a < k" by simp
  then have "rate_limited (fn a)" using Suc.prems by simp
  then obtain e where e: "fn a = Inl e" "isRate e"
    by (auto simp: rate_limited_def split: sum.splits)
  have "callCMA_from fn jitter retries baseDelay (a + 1) =
     (concat (map (\<lambda>i. [Throttle, Invoke, Sleep (baseDelay * 2 ^ i + jitter i)]) [a + 1..<k])
        @ [Throttle, Invoke], fn k)"
    using Suc by (intro Suc.hyps) auto
  moreover have "[a..<k] = a # [a + 1..<k]" using lt by (simp add: upt_conv_Cons)
  ultimately show ?case using e lt Suc.prems(2)
    by (subst callCMA_from.simps) simp
qed

text \<open>
  C7: call a failure a rate-limit failure when its status is 429 or its \<open>sys.id\<close> is
  \<open>RateLimitExceeded\<close>. Let the first \<open>k\<close> invocations be rate-limit failures, with
  \<open>k \<le> retries\<close>, and let invocation \<open>k\<close> return a value, or fail with a failure that is
  not a rate-limit failure, or be invocation number \<open>retries\<close>. Then \<open>callCMA\<close> invokes the
  operation exactly \<open>k + 1\<close> times, each time after \<open>throttle()\<close>; after rate-limit failure
  number \<open>i < k\<close> it sleeps \<open>baseDelay * 2^i\<close> plus that turn's jitter; and its outcome is
  the outcome of invocation \<open>k\<close> as it is: the value returned, the failure that is not a
  rate-limit failure (thrown at once, with no sleep and no further invocation), or, when
  \<open>k = retries\<close>, the failure of that last invocation, thrown unchanged.
\<close>

theorem callCMA_retries_only_rate_limit:
  assumes "k \<le> retries"
    and "\<forall>i<k. \<exists>e. fn i = Inl e \<and> (status e = Some 429 \<or> sys_id e = Some ''RateLimitExceeded'')"
    and "k = retries \<or> (\<exists>v. fn k = Inr v)
         \<or> (\<exists>e. fn k = Inl e \<and> status e \<noteq> Some 429 \<and> sys_id e \<noteq> Some ''RateLimitExceeded'')"
  shows "callCMA fn jitter retries baseDelay =
     (concat (map (\<lambda>i. [Throttle, Invoke, Sleep (baseDelay * 2 ^ i + jitter i)]) [0..<k])
        @ [Throttle, Invoke], fn k)"
proof -
  have a: "\<forall>i. 0 \<le> i \<and> i < k \<longrightarrow> rate_limited (fn i)"
    using assms(2) by (auto simp: rate_limited_def isRate_def)
  have b: "k = retries \<or> \<not> rate_limited (fn k)"
    using assms(3) by (auto simp: rate_limited_def isRate_def)
  show ?thesis
    unfolding callCMA_def using assms(1) a b by (intro callCMA_from_run) simp
qed

theorem callCMA_retries_only_rate_limit_witness:
  "callCMA_default
     (\<lambda>i. if i = 0
          then Inl \<lparr>status = None, sys_id = Some ''RateLimitExceeded'', detail = ''slow down''\<rparr>
          else Inl \<lparr>status = Some 500, sys_id = Some ''ServerError'', detail = ''boom''\<rparr>
            :: failure + nat)
     (\<lambda>i. 7)
     = ([Throttle, Invoke, Sleep 307, Throttle, Invoke],
        Inl \<lparr>status = Some 500, sys_id = Some ''ServerError'', detail = ''boom''\<rparr>)
   \<and> callCMA_default
     (\<lambda>i. Inl \<lparr>status = Some 404, sys_id = Some ''NotFound'', detail = ''gone''\<rparr> :: failure + nat)
     (\<lambda>i. 7)
     = ([Throttle, Invoke],
        Inl \<lparr>status = Some 404, sys_id = Some ''NotFound'', detail = ''gone''\<rparr>)
   \<and> callCMA_default
     (\<lambda>i. if i < 2 then Inl \<lparr>status = Some 429, sys_id = None, detail = ''busy''\<rparr>
          else Inr (i + 40))
     (\<lambda>i. i)
     = ([Throttle, Invoke, Sleep 300, Throttle, Invoke, Sleep 601, Throttle, Invoke], Inr 42)
   \<and> callCMA_default
     (\<lambda>i. Inl \<lparr>status = Some 429, sys_id = None, detail = replicate i CHR ''x''\<rparr>
        :: failure + nat)
     (\<lambda>i. 7)
     = ([Throttle, Invoke, Sleep 307, Throttle, Invoke, Sleep 607, Throttle, Invoke,
         Sleep 1207, Throttle, Invoke, Sleep 2407, Throttle, Invoke],
        Inl \<lparr>status = Some 429, sys_id = None, detail = ''xxxx''\<rparr>)"
proof -
  let ?a = "\<lambda>i. if i = 0
          then Inl \<lparr>status = None, sys_id = Some ''RateLimitExceeded'', detail = ''slow down''\<rparr>
          else Inl \<lparr>status = Some 500, sys_id = Some ''ServerError'', detail = ''boom''\<rparr>
            :: failure + nat"
  let ?b = "\<lambda>i. Inl \<lparr>status = Some 404, sys_id = Some ''NotFound'', detail = ''gone''\<rparr>
    :: failure + nat"
  let ?c = "\<lambda>i. if i < 2 then Inl \<lparr>status = Some 429, sys_id = None, detail = ''busy''\<rparr>
          else Inr (i + 40) :: failure + nat"
  let ?d = "\<lambda>i. Inl \<lparr>status = Some 429, sys_id = None, detail = replicate i CHR ''x''\<rparr>
    :: failure + nat"
  have u: "[0..<4] = [0, 1, 2, 3]" "[0..<2] = [0, 1]"
    by (simp_all add: upt_rec)
  have x: "replicate 4 CHR ''x'' = ''xxxx''"
    by (simp add: numeral_eq_Suc)
  have a: "callCMA_default ?a (\<lambda>i. 7)
     = ([Throttle, Invoke, Sleep 307, Throttle, Invoke],
        Inl \<lparr>status = Some 500, sys_id = Some ''ServerError'', detail = ''boom''\<rparr>)"
    using callCMA_retries_only_rate_limit [of 1 4 ?a "\<lambda>i. 7" 300]
    by (simp add: callCMA_default_def)
  have b: "callCMA_default ?b (\<lambda>i. 7)
     = ([Throttle, Invoke],
        Inl \<lparr>status = Some 404, sys_id = Some ''NotFound'', detail = ''gone''\<rparr>)"
    using callCMA_retries_only_rate_limit [of 0 4 ?b "\<lambda>i. 7" 300]
    by (simp add: callCMA_default_def)
  have c: "callCMA_default ?c (\<lambda>i. i)
     = ([Throttle, Invoke, Sleep 300, Throttle, Invoke, Sleep 601, Throttle, Invoke], Inr 42)"
    using callCMA_retries_only_rate_limit [of 2 4 ?c "\<lambda>i. i" 300]
    by (simp add: callCMA_default_def u)
  have d: "callCMA_default ?d (\<lambda>i. 7)
     = ([Throttle, Invoke, Sleep 307, Throttle, Invoke, Sleep 607, Throttle, Invoke,
         Sleep 1207, Throttle, Invoke, Sleep 2407, Throttle, Invoke],
        Inl \<lparr>status = Some 429, sys_id = None, detail = ''xxxx''\<rparr>)"
    using callCMA_retries_only_rate_limit [of 4 4 ?d "\<lambda>i. 7" 300]
    by (simp add: callCMA_default_def u x)
  from a b c d show ?thesis by (intro conjI)
qed

text \<open>
  C8, as stated: with the log full, the wait is the time left until the oldest retained
  timestamp leaves the one-second window, \<open>windowMs - (now - oldest)\<close>, plus jitter. With the
  singleton limiter, eight calls at times 0..7 and the clock at 500, all eight timestamps are
  retained and 500 ms are left in the window, but the computed wait is 0 (jitter 0): the
  source measures against \<open>minInterval\<close> = 125, not against the window.
\<close>

theorem throttle_wait_window_counterexample:
  "throttle singleton_limiter [0, 1, 2, 3, 4, 5, 6, 7] 500 500 0
     = (Wait 0, [0, 1, 2, 3, 4, 5, 6, 7])
   \<and> windowMs - (500 - 0) + 0 = 500
   \<and> minInterval singleton_limiter = 125"
  by (simp add: throttle_def singleton_limiter_def windowMs_def minInterval_def)

text \<open>
  C8, amended: with timestamps logged in time order and the log full (at least
  \<open>maxPerSecond\<close> timestamps no older than the window), the pass retains exactly the
  timestamps within the window and asks for a wait of
  \<open>max(minInterval - (now - oldest), 0)\<close> plus jitter, where \<open>oldest\<close> is the oldest retained
  timestamp and \<open>minInterval = ceil(1000 / maxPerSecond)\<close>: the time left until the oldest
  retained call is \<open>minInterval\<close> old, and only the jitter once it is.
\<close>

theorem throttle_wait_when_full:
  assumes "sorted calls"
    and "0 < maxPerSecond cfg"
    and "maxPerSecond cfg \<le> length (filter (\<lambda>t. now - t \<le> windowMs) calls)"
  shows "throttle cfg calls now now2 jit =
     (Wait (max (minInterval cfg - (now - Min {t \<in> set calls. now - t \<le> windowMs})) 0 + jit),
      filter (\<lambda>t. now - t \<le> windowMs) calls)"
proof -
  let ?kept = "filter (\<lambda>t. now - t \<le> windowMs) calls"
  have kept: "dropWhile (\<lambda>t. now - t > windowMs) calls = ?kept"
    using assms(1) by (rule dropWhile_sorted_filter)
  have "?kept \<noteq> []" using assms(2,3) by auto
  then obtain oldest rest where c: "?kept = oldest # rest" by (cases ?kept) auto
  have "sorted ?kept" using assms(1) by (rule sorted_wrt_filter)
  then have "Min (set ?kept) = oldest" unfolding c by (rule hd_sorted_Min)
  moreover have "set ?kept = {t \<in> set calls. now - t \<le> windowMs}" by auto
  ultimately have m: "Min {t \<in> set calls. now - t \<le> windowMs} = oldest" by simp
  show ?thesis
    unfolding throttle_def kept Let_def m using assms(3) c by simp
qed

theorem throttle_wait_when_full_witness:
  "sorted [0, 950, 960, 970, 980, 990, 1000, 1010, 1020 :: int]
   \<and> 0 < maxPerSecond singleton_limiter
   \<and> maxPerSecond singleton_limiter
       \<le> length (filter (\<lambda>t. 1030 - t \<le> windowMs)
            [0, 950, 960, 970, 980, 990, 1000, 1010, 1020])
   \<and> throttle singleton_limiter [0, 950, 960, 970, 980, 990, 1000, 1010, 1020] 1030 1030 11
       = (Wait 56, [950, 960, 970, 980, 990, 1000, 1010, 1020])"
proof -
  have s: "sorted [0, 950, 960, 970, 980, 990, 1000, 1010, 1020 :: int]"
    by simp
  have p: "0 < maxPerSecond singleton_limiter"
    by (simp add: singleton_limiter_def)
  have f: "maxPerSecond singleton_limiter
       \<le> length (filter (\<lambda>t. 1030 - t \<le> windowMs)
            [0, 950, 960, 970, 980, 990, 1000, 1010, 1020])"
    by (simp add: singleton_limiter_def windowMs_def)
  have "throttle singleton_limiter [0, 950, 960, 970, 980, 990, 1000, 1010, 1020] 1030 1030 11
       = (Wait 56, [950, 960, 970, 980, 990, 1000, 1010, 1020])"
    using throttle_wait_when_full [OF s p f, of 1030 11]
    by (simp add: throttle_def singleton_limiter_def windowMs_def minInterval_def)
  with s p f show ?thesis by simp
qed

section \<open>Properties of the structured-document merge\<close>

lemma length_mergeBlockAt:
  "length (mergeBlockAt dmp (nth_opt S i) (nth_opt T i)) =
     (if i < max (length S) (length T) then 1 else 0)
     + (if i < min (length S) (length T) \<and> diverges (S ! i) (T ! i) then 1 else 0)"
  by (auto simp: mergeBlockAt_def nth_opt_def diverges_def jsonEq_def merged_in_place_def)

lemma sum_list_indicator:
  "sum_list (map (\<lambda>i. if P i then 1 else 0) xs) = length (filter P xs)"
  by (induction xs) auto

lemma sum_list_succ:
  "sum_list (map (\<lambda>i. 1 + f i) xs) = length xs + sum_list (map f xs)"
  for f :: "'a \<Rightarrow> nat"
  by (induction xs) auto

lemma filter_upt_below:
  assumes "m \<le> n"
  shows "filter (\<lambda>i. i < m \<and> P i) [0..<n] = filter P [0..<m]"
proof -
  have "[0..<n] = [0..<m] @ [m..<n]" using assms by (metis le_add_diff_inverse upt_add_eq_append zero_le)
  moreover have "filter (\<lambda>i. i < m \<and> P i) [0..<m] = filter P [0..<m]"
    by (rule filter_cong) auto
  moreover have "filter (\<lambda>i. i < m \<and> P i) [m..<n] = []"
    by (simp add: filter_empty_conv)
  ultimately show ?thesis by simp
qed

lemma length_merged_blocks:
  "length (concat (map (\<lambda>i. mergeBlockAt dmp (nth_opt S i) (nth_opt T i))
             [0..<max (length S) (length T)]))
   = max (length S) (length T)
     + length (filter (\<lambda>i. diverges (S ! i) (T ! i)) [0..<min (length S) (length T)])"
proof -
  let ?n = "max (length S) (length T)" and ?m = "min (length S) (length T)"
  have "length (concat (map (\<lambda>i. mergeBlockAt dmp (nth_opt S i) (nth_opt T i)) [0..<?n]))
      = sum_list (map (\<lambda>i. length (mergeBlockAt dmp (nth_opt S i) (nth_opt T i))) [0..<?n])"
    by (simp add: length_concat comp_def)
  also have "\<dots> = sum_list (map (\<lambda>i. 1 + (if i < ?m \<and> diverges (S ! i) (T ! i) then 1 else 0)) [0..<?n])"
    by (rule arg_cong [where f = sum_list], rule map_cong) (auto simp: length_mergeBlockAt)
  also have "\<dots> = ?n + sum_list (map (\<lambda>i. if i < ?m \<and> diverges (S ! i) (T ! i) then 1 else 0) [0..<?n])"
    using sum_list_succ [of "\<lambda>i. if i < ?m \<and> diverges (S ! i) (T ! i) then 1 else 0" "[0..<?n]"]
    by simp
  also have "\<dots> = ?n + length (filter (\<lambda>i. i < ?m \<and> diverges (S ! i) (T ! i)) [0..<?n])"
    by (simp only: sum_list_indicator)
  also have "\<dots> = ?n + length (filter (\<lambda>i. diverges (S ! i) (T ! i)) [0..<?m])"
    by (subst filter_upt_below) auto
  finally show ?thesis .
qed

lemma content_set_content: "content_or_empty (set_content n cs) = cs"
  by (cases n) (simp add: content_or_empty_def)

text \<open>
  C4, amended: for two well-formed documents the merged block count is the larger of the
  two block counts plus the number of shared indices at which the blocks diverge: their
  kinds differ, or they have the same kind, that kind is neither inline-bearing (paragraph,
  heading, blockquote) nor a list, and their \<open>JSON.stringify\<close> texts differ (which they also
  do when the same properties are held in a different order).
\<close>

theorem merged_block_count:
  assumes "isRichTextDocument sourceDoc" and "isRichTextDocument targetDoc"
  shows "length (content_or_empty (mergeRichTextDocuments dmp sourceDoc targetDoc))
     = max (length (content_or_empty sourceDoc)) (length (content_or_empty targetDoc))
       + length (filter (\<lambda>i. diverges (content_or_empty sourceDoc ! i) (content_or_empty targetDoc ! i))
           [0..<min (length (content_or_empty sourceDoc)) (length (content_or_empty targetDoc))])"
  using assms
  by (simp add: mergeRichTextDocuments_def Let_def content_set_content length_merged_blocks)

text \<open>
  C4, as stated: aligned kinds at every shared index give a block count equal to the
  maximum. Two documents of one embedded-asset block each, with different data, have aligned
  kinds and merge to two blocks.
\<close>

theorem block_count_kinds_align_counterexample:
  "isRichTextDocument (doc [asset ''A'']) \<and> isRichTextDocument (doc [asset ''B''])
   \<and> nodeType (content_or_empty (doc [asset ''A'']) ! 0) = nodeType (content_or_empty (doc [asset ''B'']) ! 0)
   \<and> mergeRichTextDocuments (\<lambda>old new. []) (doc [asset ''A'']) (doc [asset ''B''])
       = doc [asset ''B'', asset ''A'']
   \<and> max (length (content_or_empty (doc [asset ''A'']))) (length (content_or_empty (doc [asset ''B'']))) = 1"
  by code_simp

theorem merged_block_count_witness:
  "isRichTextDocument
     (doc [para [tnode ''a'' []], bullets [], asset ''A'', asset ''A'', asset ''C'', asset ''D''])
   \<and> isRichTextDocument
     (doc [para [tnode ''b'' [''bold'']], bullets [listItem [para [tnode ''x'' []]]], asset ''A'',
           assetReordered ''A'', para []])
   \<and> length (content_or_empty (mergeRichTextDocuments
         (\<lambda>old new. if old = new then [(0, old)] else [(- 1, old), (1, new)])
         (doc [para [tnode ''a'' []], bullets [], asset ''A'', asset ''A'', asset ''C'', asset ''D''])
         (doc [para [tnode ''b'' [''bold'']], bullets [listItem [para [tnode ''x'' []]]], asset ''A'',
               assetReordered ''A'', para []]))) = 8
   \<and> map (\<lambda>item. length (content_or_empty item))
         (content_or_empty (mergeListBlock
            (\<lambda>old new. if old = new then [(0, old)] else [(- 1, old), (1, new)])
            (bullets [listItem [para [tnode ''a'' []], asset ''A'']])
            (bullets [listItem [para [tnode ''b'' []], asset ''B'']]))) = [3]"
proof -
  let ?S = "[para [tnode ''a'' []], bullets [], asset ''A'', asset ''A'', asset ''C'', asset ''D'']"
  let ?T = "[para [tnode ''b'' [''bold'']], bullets [listItem [para [tnode ''x'' []]]], asset ''A'',
             assetReordered ''A'', para []]"
  have s: "isRichTextDocument (doc ?S)" by (simp add: isRichTextDocument_def doc_def)
  have t: "isRichTextDocument (doc ?T)" by (simp add: isRichTextDocument_def doc_def)
  have cS: "content_or_empty (doc ?S) = ?S" by (simp add: content_or_empty_def doc_def)
  have cT: "content_or_empty (doc ?T) = ?T" by (simp add: content_or_empty_def doc_def)
  have k: "nodeType (para ns) = ''paragraph''" "nodeType (bullets ns) = ''unordered-list''"
    "nodeType (asset i) = ''embedded-asset-block''"
    "nodeType (assetReordered i) = ''embedded-asset-block''" for ns i
    by (simp_all add: para_def bullets_def asset_def assetReordered_def)
  have o: "JSON_stringify (node_json (asset ''A''))
      \<noteq> JSON_stringify (node_json (assetReordered ''A''))"
    by code_simp
  have d0: "\<not> diverges (para [tnode ''a'' []]) (para [tnode ''b'' [''bold'']])"
    by (simp add: diverges_def k merged_in_place_def)
  have d1: "\<not> diverges (bullets []) (bullets [listItem [para [tnode ''x'' []]]])"
    by (simp add: diverges_def k merged_in_place_def)
  have d2: "\<not> diverges (asset ''A'') (asset ''A'')"
    by (simp add: diverges_def)
  have d3: "diverges (asset ''A'') (assetReordered ''A'')"
    using o by (simp add: diverges_def k merged_in_place_def)
  have d4: "diverges (asset ''C'') (para [])"
    by (simp add: diverges_def k)
  have u: "[0..<5] = [0, 1, 2, 3, 4]" by (simp add: upt_rec)
  have f: "length (filter (\<lambda>i. diverges (?S ! i) (?T ! i)) [0..<min (length ?S) (length ?T)]) = 2"
    using d0 d1 d2 d3 d4 by (simp add: u)
  have p: "JSON_stringify (node_json (asset ''A'')) \<noteq> JSON_stringify (node_json (asset ''B''))"
    by code_simp
  have i: "nodeType (listItem ns) = ''list-item''" "content_or_empty (listItem ns) = ns"
    "content_or_empty (bullets ns) = ns" for ns
    by (simp_all add: listItem_def bullets_def content_or_empty_def)
  have l: "map (\<lambda>item. length (content_or_empty item))
         (content_or_empty (mergeListBlock
            (\<lambda>old new. if old = new then [(0, old)] else [(- 1, old), (1, new)])
            (bullets [listItem [para [tnode ''a'' []], asset ''A'']])
            (bullets [listItem [para [tnode ''b'' []], asset ''B'']]))) = [3]"
    using p
    by (simp add: mergeListBlock_def mergeItemAt_def mergeChildAt_def isInlineBlockType_def
        jsonEq_def nth_opt_def content_set_content i k Let_def upt_rec)
  have "length (content_or_empty (mergeRichTextDocuments
         (\<lambda>old new. if old = new then [(0, old)] else [(- 1, old), (1, new)])
         (doc ?S) (doc ?T))) = 8"
    using merged_block_count [OF s t, of "\<lambda>old new. if old = new then [(0, old)] else [(- 1, old), (1, new)]"]
    unfolding cS cT f by simp
  with s t l show ?thesis by (intro conjI)
qed

section \<open>Properties of the adoption traversal\<close>

lemma frame_refl: "frame loc fs fs"
  by (simp add: frame_def)

lemma frame_assign:
  assumes "frame loc fs nf" and "map_of fs fid = Some lv"
  shows "frame loc fs (AList.update fid (AList.update loc v lv) nf)"
proof -
  have "fid \<in> fst ` set fs" using assms(2) by (rule map_of_SomeD [THEN imageI, of _ _ _ fst, simplified])
  then have "fid \<in> set (map fst nf)" using assms(1) by (simp add: frame_def)
  then have "map fst (AList.update fid (AList.update loc v lv) nf) = map fst nf"
    by (simp add: update_keys)
  then show ?thesis
    using assms by (auto simp: frame_def update_conv')
qed

lemma newFields_assign:
  "newFields (assign cfg fid lv v st) = AList.update fid (AList.update (targetLocale cfg) v lv) (newFields st)"
  by (simp add: assign_def)

lemma nullish_not_truthy: "nullish v \<Longrightarrow> \<not> truthyO v"
  by (auto simp: nullish_def truthyO_def)

lemma nullish_not_array: "nullish v \<Longrightarrow> \<not> isArray v"
  by (auto simp: nullish_def isArray_def)

lemma touched_refl: "touched cfg fid lv st st"
  by (simp add: touched_def)

lemma touched_assign: "touched cfg fid lv st (assign cfg fid lv v st)"
  by (auto simp: touched_def newFields_assign)

lemma touched_refs: "touched cfg fid lv st st' \<Longrightarrow> touched cfg fid lv st (st'\<lparr>refIds := r\<rparr>)"
  by (simp add: touched_def)

lemma entryLinkField_effect: "touched cfg (fd_id fd) lv st (entryLinkField cfg allowed fd lv st)"
proof (cases "nullish (map_of lv (targetLocale cfg))")
  case True
  then have "\<not> truthyO (map_of lv (targetLocale cfg))" by (rule nullish_not_truthy)
  then show ?thesis
    by (simp add: entryLinkField_def Let_def touched_refl touched_assign touched_refs
        split: option.split)
next
  case False
  then show ?thesis
    by (simp add: entryLinkField_def Let_def touched_refl touched_assign touched_refs
        split: option.split)
qed

lemma entryLinkArrayField_effect:
  "touched cfg (fd_id fd) lv st (entryLinkArrayField cfg allowed fd lv st)"
proof (cases "nullish (map_of lv (targetLocale cfg))")
  case True
  then have "\<not> isArray (map_of lv (targetLocale cfg))" by (rule nullish_not_array)
  then show ?thesis
    by (simp add: entryLinkArrayField_def Let_def touched_refl touched_assign touched_refs
        split: option.split)
next
  case False
  then show ?thesis
    by (simp add: entryLinkArrayField_def Let_def touched_refl touched_assign touched_refs
        split: option.split)
qed

lemma localizedValueField_effect:
  "touched cfg (fd_id fd) lv st (localizedValueField cfg allowed fd lv st)"
  by (simp add: localizedValueField_def Let_def touched_refl touched_assign
      split: option.split prod.split)

lemma processField_effect:
  "newFields (processField cfg allowed fs st fd) = newFields st \<or>
   (\<exists>lv v. map_of fs (fd_id fd) = Some lv \<and>
      newFields (processField cfg allowed fs st fd)
        = AList.update (fd_id fd) (AList.update (targetLocale cfg) v lv) (newFields st))"
proof (cases "map_of fs (fd_id fd)")
  case None
  then show ?thesis by (simp add: processField_def)
next
  case (Some lv)
  have "touched cfg (fd_id fd) lv st (processField cfg allowed fs st fd)"
    using Some entryLinkField_effect [of cfg fd lv st] entryLinkArrayField_effect [of cfg fd lv st]
      localizedValueField_effect [of cfg fd lv st]
    by (simp add: processField_def Let_def touched_refl)
  then show ?thesis using Some by (auto simp: touched_def)
qed

lemma processField_frame:
  assumes "frame (targetLocale cfg) fs (newFields st)"
  shows "frame (targetLocale cfg) fs (newFields (processField cfg allowed fs st fd))"
  using processField_effect [of cfg allowed fs st fd] assms
  by (auto simp: frame_assign)

lemma processField_other:
  assumes "fieldId \<noteq> fd_id fd"
  shows "map_of (newFields (processField cfg allowed fs st fd)) fieldId = map_of (newFields st) fieldId"
  using processField_effect [of cfg allowed fs st fd] assms
  by (auto simp: update_conv')

lemma foldl_processField_frame:
  assumes "frame (targetLocale cfg) fs (newFields st)"
  shows "frame (targetLocale cfg) fs (newFields (foldl (processField cfg allowed fs) st defs))"
  using assms
  by (induction defs arbitrary: st) (auto simp: processField_frame)

lemma foldl_processField_other:
  assumes "fieldId \<notin> fd_id ` set defs"
  shows "map_of (newFields (foldl (processField cfg allowed fs) st defs)) fieldId
         = map_of (newFields st) fieldId"
  using assms
  by (induction defs arbitrary: st) (auto simp: processField_other)


lemma frame_other_locales:
  assumes "frame loc fetched written"
    and "map_of fetched fieldId = Some lv" and "map_of written fieldId = Some lv'"
    and "l \<noteq> loc"
  shows "map_of lv' l = map_of lv l"
proof -
  from assms(1,2) obtain lv2 where w: "map_of written fieldId = Some lv2"
    and c: "lv2 = lv \<or> (\<exists>v. lv2 = AList.update loc v lv)"
    unfolding frame_def by blast
  from w assms(3) have "lv2 = lv'" by simp
  with c assms(4) show ?thesis by (auto simp: update_conv')
qed

lemma processFields_frame:
  "frame (targetLocale cfg) (e_fields entry) (newFields (processFields cfg entryId entry ct))"
  unfolding processFields_def by (rule foldl_processField_frame) (simp add: frame_refl)

lemma processFields_other:
  "fieldId \<notin> fd_id ` set (ct_fields ct) \<Longrightarrow>
   map_of (newFields (processFields cfg entryId entry ct)) fieldId = map_of (e_fields entry) fieldId"
  unfolding processFields_def by (simp add: foldl_processField_other)

lemma fetchContentType_store: "store (snd (fetchContentType cfg st ctId)) = store st"
  by (simp add: fetchContentType_def Let_def split: option.split)

lemma visitEntry_store:
  assumes "map_of (store st) entryId = Some entry"
  shows "store (snd (visitEntry cfg st entryId)) = store st \<or>
    (\<exists>ct. store (snd (visitEntry cfg st entryId)) =
       AList.update entryId
         (entry\<lparr>e_fields := newFields (processFields cfg entryId entry ct),
                 e_version := e_version entry + 1\<rparr>) (store st))"
proof -
  let ?st1 = "st\<lparr>visited := visited st @ [entryId], remoteCalls := remoteCalls st @ [GetEntry entryId]\<rparr>"
  obtain r st2 where f: "fetchContentType cfg ?st1 (e_contentType entry) = (r, st2)"
    by (cases "fetchContentType cfg ?st1 (e_contentType entry)")
  then have s2: "store st2 = store st"
    using fetchContentType_store [of cfg ?st1 "e_contentType entry"] by simp
  show ?thesis
  proof (cases r)
    case (Inl e)
    then show ?thesis using assms f s2 by (simp add: visitEntry_def Let_def)
  next
    case (Inr ct)
    then show ?thesis using assms f s2 by (auto simp: visitEntry_def Let_def)
  qed
qed

text \<open>
  C10: after a record is visited, the record in the store has the field ids it was fetched
  with; each of its per-locale value maps is as fetched or as fetched with the target locale
  set, so the values under every other locale code are unchanged; a field that the content
  type does not list is never touched by the field loop; and every other record of the
  store is as it was.
\<close>

theorem adopt_writes_only_target_locale:
  assumes "map_of (store st) entryId = Some entry"
  shows "(\<exists>entry'. map_of (store (snd (visitEntry cfg st entryId))) entryId = Some entry'
            \<and> frame (targetLocale cfg) (e_fields entry) (e_fields entry')
            \<and> (\<forall>fieldId lv lv' l.
                  map_of (e_fields entry) fieldId = Some lv \<longrightarrow>
                  map_of (e_fields entry') fieldId = Some lv' \<longrightarrow>
                  l \<noteq> targetLocale cfg \<longrightarrow> map_of lv' l = map_of lv l))
         \<and> (\<forall>ct fieldId. fieldId \<notin> fd_id ` set (ct_fields ct) \<longrightarrow>
               map_of (newFields (processFields cfg entryId entry ct)) fieldId
                 = map_of (e_fields entry) fieldId)
         \<and> (\<forall>other. other \<noteq> entryId \<longrightarrow>
               map_of (store (snd (visitEntry cfg st entryId))) other = map_of (store st) other)"
proof -
  let ?st' = "snd (visitEntry cfg st entryId)"
  from visitEntry_store [OF assms, of cfg]
  consider "store ?st' = store st"
    | ct where "store ?st' = AList.update entryId
         (entry\<lparr>e_fields := newFields (processFields cfg entryId entry ct),
                 e_version := e_version entry + 1\<rparr>) (store st)"
    by blast
  then have "\<exists>entry'. map_of (store ?st') entryId = Some entry'
      \<and> frame (targetLocale cfg) (e_fields entry) (e_fields entry')
      \<and> (\<forall>other. other \<noteq> entryId \<longrightarrow> map_of (store ?st') other = map_of (store st) other)"
  proof cases
    case 1
    then show ?thesis using assms by (simp add: frame_refl)
  next
    case (2 ct)
    then show ?thesis by (simp add: update_conv' processFields_frame)
  qed
  then obtain entry' where e: "map_of (store ?st') entryId = Some entry'"
    "frame (targetLocale cfg) (e_fields entry) (e_fields entry')"
    "\<forall>other. other \<noteq> entryId \<longrightarrow> map_of (store ?st') other = map_of (store st) other"
    by blast
  have "\<forall>fieldId lv lv' l.
          map_of (e_fields entry) fieldId = Some lv \<longrightarrow>
          map_of (e_fields entry') fieldId = Some lv' \<longrightarrow>
          l \<noteq> targetLocale cfg \<longrightarrow> map_of lv' l = map_of lv l"
    using frame_other_locales [OF e(2)] by blast
  with e show ?thesis by (auto simp: processFields_other)
qed


text \<open>
  C3 at a concrete input: a localized field whose source value is not a structured document
  and whose target value is one is not skipped. The fallback branch overwrites the target
  document with the source value and the record is written back. The mirrored field (source
  a document, target not) is skipped.
\<close>

theorem mixed_kind_target_document_overwritten:
  "\<not> isRichText (Some (JObj [(''foo'', JNum 1)])) \<and> isRichText (Some richDoc)
   \<and> adoptEntryTree 2 bodyConfig (bodyState (JObj [(''foo'', JNum 1)]) richDoc) ''E1''
     = Some (Inr \<lparr>updatedEntries = 1, changedFields = 1, traversedEntries = 1\<rparr>,
         \<lparr>visited = [''E1''], ctCache = [(''article'', bodyType)],
          store = [(''E1'', \<lparr>e_version = 8, e_contentType = ''article'',
                      e_fields = [(''body'', [(''en'', JObj [(''foo'', JNum 1)]),
                                              (''de'', JObj [(''foo'', JNum 1)])])]\<rparr>)],
          remoteCalls = [GetEntry ''E1'', GetContentType ''article'', UpdateEntry ''E1'' 7]\<rparr>)
   \<and> adoptEntryTree 2 bodyConfig (bodyState richDoc (JObj [(''foo'', JNum 1)])) ''E1''
     = Some (Inr \<lparr>updatedEntries = 0, changedFields = 0, traversedEntries = 1\<rparr>,
         \<lparr>visited = [''E1''], ctCache = [(''article'', bodyType)],
          store = [(''E1'', \<lparr>e_version = 7, e_contentType = ''article'',
                      e_fields = [(''body'', [(''en'', richDoc),
                                              (''de'', JObj [(''foo'', JNum 1)])])]\<rparr>)],
          remoteCalls = [GetEntry ''E1'', GetContentType ''article'']\<rparr>)"
  by code_simp

theorem adopt_writes_only_target_locale_witness:
  "map_of (store (bodyState (JStr ''Welcome'') JNull)) ''E1''
     = Some \<lparr>e_version = 7, e_contentType = ''article'',
              e_fields = [(''body'', [(''en'', JStr ''Welcome''), (''de'', JNull)])]\<rparr>
   \<and> map_of (store (snd (visitEntry bodyConfig (bodyState (JStr ''Welcome'') JNull) ''E1''))) ''E1''
     = Some \<lparr>e_version = 8, e_contentType = ''article'',
              e_fields = [(''body'', [(''en'', JStr ''Welcome''), (''de'', JStr ''Welcome'')])]\<rparr>
   \<and> map_of (store (snd (visitEntry bodyConfig (bodyState (JStr ''Welcome'') JNull) ''E1''))) ''E2''
     = map_of (store (bodyState (JStr ''Welcome'') JNull)) ''E2''"
proof -
  let ?st = "bodyState (JStr ''Welcome'') JNull"
  let ?e = "\<lparr>e_version = 7, e_contentType = ''article'',
              e_fields = [(''body'', [(''en'', JStr ''Welcome''), (''de'', JNull)])]\<rparr>"
  have h: "map_of (store ?st) ''E1'' = Some ?e"
    by code_simp
  have c: "map_of (store (snd (visitEntry bodyConfig ?st ''E1''))) ''E1''
     = Some \<lparr>e_version = 8, e_contentType = ''article'',
              e_fields = [(''body'', [(''en'', JStr ''Welcome''), (''de'', JStr ''Welcome'')])]\<rparr>"
    by code_simp
  have "\<forall>other. other \<noteq> ''E1'' \<longrightarrow>
      map_of (store (snd (visitEntry bodyConfig ?st ''E1''))) other = map_of (store ?st) other"
    using adopt_writes_only_target_locale [OF h, of bodyConfig] by blast
  then have "map_of (store (snd (visitEntry bodyConfig ?st ''E1''))) ''E2'' = map_of (store ?st) ''E2''"
    by simp
  with h c show ?thesis by simp
qed


lemma fetchedIds_append: "fetchedIds (xs @ ys) = fetchedIds xs @ fetchedIds ys"
  by (simp add: fetchedIds_def)

lemma fetchedIds_simps:
  "fetchedIds [] = []" "fetchedIds [GetEntry i] = [i]" "fetchedIds [GetContentType c] = []"
  "fetchedIds [UpdateEntry i v] = []"
  by (simp_all add: fetchedIds_def)

lemma fetchContentType_keeps:
  "visited (snd (fetchContentType cfg st ctId)) = visited st"
  "store (snd (fetchContentType cfg st ctId)) = store st"
  "fetchedIds (remoteCalls (snd (fetchContentType cfg st ctId))) = fetchedIds (remoteCalls st)"
  by (simp_all add: fetchContentType_def Let_def fetchedIds_append fetchedIds_simps split: option.split)

lemma keys_update_present:
  "map_of al k = Some v \<Longrightarrow> fst ` set (AList.update k w al) = fst ` set al"
proof -
  assume "map_of al k = Some v"
  then have "k \<in> fst ` set al" by (metis domI dom_map_of_conv_image_fst)
  then show ?thesis
    using dom_update [of k w al] by (simp add: insert_absorb)
qed

lemma visitEntry_facts_all:
  assumes "visitEntry cfg st entryId = (r, st')"
  shows "visited st' = visited st @ [entryId] \<and>
      fst ` set (store st') = fst ` set (store st) \<and>
      fetchedIds (remoteCalls st') = fetchedIds (remoteCalls st) @ [entryId] \<and>
      ((\<exists>x. r = Inr x) \<longrightarrow> entryId \<in> fst ` set (store st))"
proof (cases "map_of (store st) entryId")
  case None
  then show ?thesis
    using assms by (auto simp: visitEntry_def Let_def fetchedIds_append fetchedIds_simps)
next
  case (Some entry)
  let ?st1 = "st\<lparr>visited := visited st @ [entryId], remoteCalls := remoteCalls st @ [GetEntry entryId]\<rparr>"
  obtain q st2 where f: "fetchContentType cfg ?st1 (e_contentType entry) = (q, st2)"
    by (cases "fetchContentType cfg ?st1 (e_contentType entry)")
  have k: "visited st2 = visited st @ [entryId]" "store st2 = store st"
    "fetchedIds (remoteCalls st2) = fetchedIds (remoteCalls st) @ [entryId]"
    using fetchContentType_keeps [of cfg ?st1 "e_contentType entry"] f
    by (simp_all add: fetchedIds_append fetchedIds_simps)
  have inn: "entryId \<in> fst ` set (store st)"
    using Some by (metis domI dom_map_of_conv_image_fst)
  show ?thesis
  proof (cases q)
    case (Inl e)
    then show ?thesis using assms Some f k inn by (auto simp: visitEntry_def Let_def)
  next
    case (Inr ct)
    let ?r = "processFields cfg entryId entry ct"
    let ?st3 = "st2\<lparr>store := AList.update entryId
                  (entry\<lparr>e_fields := newFields ?r, e_version := e_version entry + 1\<rparr>) (store st2),
                remoteCalls := remoteCalls st2 @ [UpdateEntry entryId (e_version entry)]\<rparr>"
    have res: "st' = (if changed ?r > 0 then ?st3 else st2)"
      using assms Some f Inr by (simp add: visitEntry_def Let_def)
    have u: "fst ` set (AList.update entryId
                  (entry\<lparr>e_fields := newFields ?r, e_version := e_version entry + 1\<rparr>) (store st))
             = fst ` set (store st)"
      using Some by (rule keys_update_present)
    show ?thesis
    proof (cases "changed ?r > 0")
      case True
      then have "st' = ?st3" using res by simp
      then show ?thesis using k inn u by (simp add: fetchedIds_append fetchedIds_simps)
    next
      case False
      then have "st' = st2" using res by simp
      then show ?thesis using k inn by simp
    qed
  qed
qed

lemma visitEntry_facts:
  assumes "visitEntry cfg st entryId = (r, st')"
  shows "visited st' = visited st @ [entryId]"
    and "fst ` set (store st') = fst ` set (store st)"
    and "fetchedIds (remoteCalls st') = fetchedIds (remoteCalls st) @ [entryId]"
    and "(\<exists>x. r = Inr x) \<longrightarrow> entryId \<in> fst ` set (store st)"
  using visitEntry_facts_all [OF assms] by simp_all

lemma visitEntry_grows:
  assumes "visitEntry cfg st entryId = (r, st')" and "entryId \<notin> set (visited st)"
  shows "grows st st'"
  using visitEntry_facts(1-3) [OF assms(1)] assms(2)
  by (auto simp: grows_def once_def)

lemma grows_refl: "grows st st"
  by (simp add: grows_def)

lemma grows_trans: "grows a b \<Longrightarrow> grows b c \<Longrightarrow> grows a c"
  by (auto simp: grows_def)

lemma grows_pending: "grows st st' \<Longrightarrow> pending st' \<le> pending st"
  unfolding grows_def pending_def
  by (intro card_mono) auto

lemma visitEntry_pending:
  assumes "visitEntry cfg st entryId = (Inr x, st')" and "entryId \<notin> set (visited st)"
  shows "pending st' < pending st"
proof -
  have v: "visited st' = visited st @ [entryId]"
    and s: "fst ` set (store st') = fst ` set (store st)"
    and i: "entryId \<in> fst ` set (store st)"
    using visitEntry_facts [OF assms(1)] by auto
  have "fst ` set (store st') - set (visited st') \<subset> fst ` set (store st) - set (visited st)"
    using v s i assms(2) by auto
  then show ?thesis unfolding pending_def by (intro psubset_card_mono) auto
qed

lemma adopt_runs:
  "(pending st < fuel \<longrightarrow> adoptEntryTree fuel cfg st entryId \<noteq> None) \<and>
   (\<forall>r st'. adoptEntryTree fuel cfg st entryId = Some (r, st') \<longrightarrow> grows st st')"
  and "(pending st < fuel \<longrightarrow> adoptChildren fuel cfg st children summary \<noteq> None) \<and>
   (\<forall>r st'. adoptChildren fuel cfg st children summary = Some (r, st') \<longrightarrow> grows st st')"
proof (induction fuel cfg st entryId and fuel cfg st children summary
    rule: adoptEntryTree_adoptChildren.induct)
  case (1 cfg st entryId)
  show ?case by simp
next
  case (2 fuel cfg st entryId)
  show ?case
  proof (cases "entryId = [] \<or> entryId \<in> set (visited st)")
    case True
    then show ?thesis by (auto simp: grows_refl)
  next
    case False
    obtain r st1 where v: "visitEntry cfg st entryId = (r, st1)"
      by (cases "visitEntry cfg st entryId")
    have g: "grows st st1" using visitEntry_grows [OF v] False by simp
    show ?thesis
    proof (cases r)
      case (Inl e)
      then show ?thesis using False v g by auto
    next
      case (Inr x)
      obtain children summary where x: "x = (children, summary)" by (cases x)
      have ih: "(pending st1 < fuel \<longrightarrow> adoptChildren fuel cfg st1 children summary \<noteq> None) \<and>
         (\<forall>r st'. adoptChildren fuel cfg st1 children summary = Some (r, st') \<longrightarrow> grows st1 st')"
        using "2.IH" False v Inr x by simp
      have p: "pending st1 < pending st"
        using visitEntry_pending [of cfg st entryId x st1] v Inr False by simp
      have e: "adoptEntryTree (Suc fuel) cfg st entryId = adoptChildren fuel cfg st1 children summary"
        using False v Inr x by simp
      show ?thesis unfolding e using ih p g by (auto intro: grows_trans)
    qed
  qed
next
  case (3 fuel cfg st summary)
  show ?case by (simp add: grows_refl)
next
  case (4 fuel cfg st childId rest summary)
  show ?case
  proof (cases "adoptEntryTree fuel cfg st childId")
    case None
    then show ?thesis using "4.IH"(1) by auto
  next
    case (Some a)
    obtain r st1 where a: "a = (r, st1)" by (cases a)
    have g: "grows st st1" using "4.IH"(1) Some a by simp
    show ?thesis
    proof (cases r)
      case (Inl e)
      then show ?thesis using Some a g by simp
    next
      case (Inr s)
      have ih: "(pending st1 < fuel \<longrightarrow> adoptChildren fuel cfg st1 rest (addSummary summary s) \<noteq> None) \<and>
         (\<forall>r st'. adoptChildren fuel cfg st1 rest (addSummary summary s) = Some (r, st') \<longrightarrow> grows st1 st')"
        using "4.IH"(2) Some a Inr by simp
      have e: "adoptChildren fuel cfg st (childId # rest) summary
          = adoptChildren fuel cfg st1 rest (addSummary summary s)"
        using Some a Inr by simp
      show ?thesis unfolding e using ih g grows_pending [OF g] by (auto intro: grows_trans)
    qed
  qed
qed


lemma adopt_more_fuel:
  "adoptEntryTree fuel cfg st entryId = Some x \<longrightarrow>
     adoptEntryTree (fuel + extra) cfg st entryId = Some x"
  and "adoptChildren fuel cfg st children summary = Some y \<longrightarrow>
     adoptChildren (fuel + extra) cfg st children summary = Some y"
proof (induction fuel cfg st entryId and fuel cfg st children summary arbitrary: x and y
    rule: adoptEntryTree_adoptChildren.induct)
  case (1 cfg st entryId)
  show ?case by simp
next
  case (2 fuel cfg st entryId)
  show ?case
  proof (cases "entryId = [] \<or> entryId \<in> set (visited st)")
    case True
    then show ?thesis by auto
  next
    case False
    obtain r st1 where v: "visitEntry cfg st entryId = (r, st1)"
      by (cases "visitEntry cfg st entryId")
    show ?thesis
    proof (cases r)
      case (Inl e)
      then show ?thesis using False v by auto
    next
      case (Inr c)
      obtain children summary where c: "c = (children, summary)" by (cases c)
      have "adoptChildren fuel cfg st1 children summary = Some x \<longrightarrow>
            adoptChildren (fuel + extra) cfg st1 children summary = Some x"
        using "2.IH" False v Inr c by simp
      then show ?thesis using False v Inr c by simp
    qed
  qed
next
  case (3 fuel cfg st summary)
  show ?case by simp
next
  case (4 fuel cfg st childId rest summary)
  show ?case
  proof (cases "adoptEntryTree fuel cfg st childId")
    case None
    then show ?thesis by simp
  next
    case (Some a)
    then have m: "adoptEntryTree (fuel + extra) cfg st childId = Some a"
      using "4.IH"(1) by simp
    obtain r st1 where a: "a = (r, st1)" by (cases a)
    show ?thesis
    proof (cases r)
      case (Inl e)
      then show ?thesis using Some m a by auto
    next
      case (Inr s)
      have "adoptChildren fuel cfg st1 rest (addSummary summary s) = Some y \<longrightarrow>
            adoptChildren (fuel + extra) cfg st1 rest (addSummary summary s) = Some y"
        using "4.IH"(2) Some a Inr by simp
      then show ?thesis using Some m a Inr by simp
    qed
  qed
qed

lemma pending_le_store: "pending st \<le> length (store st)"
proof -
  have "pending st \<le> card (fst ` set (store st))"
    unfolding pending_def by (intro card_mono) auto
  also have "\<dots> \<le> card (set (store st))" by (intro card_image_le) simp
  also have "\<dots> \<le> length (store st)" by (rule card_length)
  finally show ?thesis .
qed

text \<open>
  C6: on every store (a finite list of records, cyclic links or not) and from every state,
  \<open>adoptEntryTree\<close> returns: fuel of one more than the number of stored records suffices for
  a result (a summary or a thrown failure), and a result once reached does not depend on the
  fuel. A run that starts with no id fetchedIds twice and every fetchedIds id in the visited set
  ends so, hence in one invocation (started with an empty visited set and no call issued)
  each record id is fetchedIds at most once. An id already in the visited set returns at once
  with the zero summary and the state untouched.
\<close>

theorem adoptEntryTree_terminates_visits_once:
  "(\<exists>r st'. adoptEntryTree (Suc (length (store st))) cfg st entryId = Some (r, st'))
   \<and> (\<forall>fuel r st'. adoptEntryTree fuel cfg st entryId = Some (r, st') \<longrightarrow>
         (\<forall>extra. adoptEntryTree (fuel + extra) cfg st entryId = Some (r, st'))
         \<and> (once st \<longrightarrow> once st'))
   \<and> (entryId \<in> set (visited st) \<longrightarrow>
         (\<forall>fuel. adoptEntryTree (Suc fuel) cfg st entryId = Some (Inr zeroSummary, st)))"
proof -
  have "pending st < Suc (length (store st))"
    using pending_le_store [of st] by simp
  then have "adoptEntryTree (Suc (length (store st))) cfg st entryId \<noteq> None"
    using adopt_runs(1) [of st "Suc (length (store st))" cfg entryId] by blast
  then have t: "\<exists>r st'. adoptEntryTree (Suc (length (store st))) cfg st entryId = Some (r, st')"
    by auto
  have o: "\<forall>fuel r st'. adoptEntryTree fuel cfg st entryId = Some (r, st') \<longrightarrow>
         (\<forall>extra. adoptEntryTree (fuel + extra) cfg st entryId = Some (r, st'))
         \<and> (once st \<longrightarrow> once st')"
    using adopt_runs(1) [of st _ cfg entryId] adopt_more_fuel(1) [of _ cfg st entryId]
    by (simp add: grows_def)
  show ?thesis using t o by simp
qed

theorem adoptEntryTree_terminates_visits_once_witness:
  "adoptEntryTree (Suc (length (store cycleState))) cycleConfig cycleState ''A''
     = Some (Inr \<lparr>updatedEntries = 1, changedFields = 1, traversedEntries = 2\<rparr>,
         \<lparr>visited = [''A'', ''B''], ctCache = [(''page'', cycleType)],
          store = [(''A'', \<lparr>e_version = 2, e_contentType = ''page'',
                      e_fields = [(''title'', [(''en'', JStr ''Welcome''), (''de'', JStr ''Welcome'')]),
                                  (''next'', [(''en'', linkTo ''B'')])]\<rparr>),
                   (''B'', \<lparr>e_version = 3, e_contentType = ''page'',
                      e_fields = [(''title'', [(''en'', JStr ''Hi''), (''de'', JStr ''Hi'')]),
                                  (''next'', [(''en'', linkTo ''A'')])]\<rparr>)],
          remoteCalls = [GetEntry ''A'', GetContentType ''page'', UpdateEntry ''A'' 1,
                         GetEntry ''B'']\<rparr>)
   \<and> once cycleState
   \<and> fetchedIds [GetEntry ''A'', GetContentType ''page'', UpdateEntry ''A'' 1, GetEntry ''B'']
       = [''A'', ''B'']"
proof -
  have c: "adoptEntryTree (Suc (length (store cycleState))) cycleConfig cycleState ''A''
     = Some (Inr \<lparr>updatedEntries = 1, changedFields = 1, traversedEntries = 2\<rparr>,
         \<lparr>visited = [''A'', ''B''], ctCache = [(''page'', cycleType)],
          store = [(''A'', \<lparr>e_version = 2, e_contentType = ''page'',
                      e_fields = [(''title'', [(''en'', JStr ''Welcome''), (''de'', JStr ''Welcome'')]),
                                  (''next'', [(''en'', linkTo ''B'')])]\<rparr>),
                   (''B'', \<lparr>e_version = 3, e_contentType = ''page'',
                      e_fields = [(''title'', [(''en'', JStr ''Hi''), (''de'', JStr ''Hi'')]),
                                  (''next'', [(''en'', linkTo ''A'')])]\<rparr>)],
          remoteCalls = [GetEntry ''A'', GetContentType ''page'', UpdateEntry ''A'' 1,
                         GetEntry ''B'']\<rparr>)"
    by code_simp
  have o: "once cycleState"
    by (simp add: once_def cycleState_def fetchedIds_def)
  have f: "fetchedIds [GetEntry ''A'', GetContentType ''page'', UpdateEntry ''A'' 1, GetEntry ''B'']
       = [''A'', ''B'']"
    by (simp add: fetchedIds_def)
  show ?thesis
    using c o f adoptEntryTree_terminates_visits_once [of cycleState cycleConfig "''A''"]
    by simp
qed


section \<open>Formatting inheritance of the inline merge\<close>

lemma styled_simps:
  "styled [] = []"
  "styled (s # ss) = map (\<lambda>c. (c, formatOf s)) (sp_text s) @ styled ss"
  "styled (xs @ ys) = styled xs @ styled ys"
  by (simp_all add: styled_def)

lemma length_styled: "length (styled ss) = length (concat (map sp_text ss))"
  by (induction ss) (simp_all add: styled_simps)

lemma map_fst_styled: "map fst (styled ss) = concat (map sp_text ss)"
  by (induction ss) (simp_all add: styled_simps comp_def)

lemma same_format:
  "(sameMarks (sp_marks a) (sp_marks b) \<and> sameHyperlink (sp_hyperlink a) (sp_hyperlink b))
   = (formatOf a = formatOf b)"
  by (auto simp: sameMarks_def sameHyperlink_def formatOf_def split: option.splits)

lemma styled_coalesceFrom: "styled (coalesceFrom prev ss) = styled (prev # ss)"
proof (induction ss arbitrary: prev)
  case Nil
  show ?case by simp
next
  case (Cons s ss)
  show ?case
  proof (cases "formatOf prev = formatOf s")
    case True
    let ?p = "prev\<lparr>sp_text := sp_text prev @ sp_text s\<rparr>"
    have f: "formatOf ?p = formatOf prev" by (simp add: formatOf_def)
    have "sameMarks (sp_marks prev) (sp_marks s)
            \<and> sameHyperlink (sp_hyperlink prev) (sp_hyperlink s)"
      using True same_format [of prev s] by blast
    then have "coalesceFrom prev (s # ss) = coalesceFrom ?p ss"
      by simp
    then have "styled (coalesceFrom prev (s # ss)) = styled (?p # ss)"
      using Cons.IH [of ?p] by simp
    then show ?thesis using True f by (simp add: styled_simps)
  next
    case False
    then have "\<not> (sameMarks (sp_marks prev) (sp_marks s)
                \<and> sameHyperlink (sp_hyperlink prev) (sp_hyperlink s))"
      using same_format [of prev s] by blast
    then have "coalesceFrom prev (s # ss) = prev # coalesceFrom s ss"
      by auto
    then show ?thesis using Cons.IH [of s] by (simp add: styled_simps)
  qed
qed

lemma styled_coalesceSpans: "styled (coalesceSpans ss) = styled ss"
  by (cases ss) (simp_all add: styled_coalesceFrom)


lemma tiled_append:
  "tiled off (xs @ ys) = (tiled off xs \<and> tiled (off + int (length (concat (map sp_text xs)))) ys)"
proof (induction xs arbitrary: off)
  case Nil
  show ?case by simp
next
  case (Cons s xs)
  show ?case
  proof (cases "sp_start s = off \<and> sp_text s \<noteq> [] \<and> sp_end s = off + int (length (sp_text s))")
    case True
    then have e: "sp_end s + int (length (concat (map sp_text xs)))
        = off + int (length (concat (map sp_text (s # xs))))"
      by simp
    have "tiled off ((s # xs) @ ys) = tiled (sp_end s) (xs @ ys)"
      using True by simp
    also have "\<dots> = (tiled (sp_end s) xs
        \<and> tiled (sp_end s + int (length (concat (map sp_text xs)))) ys)"
      by (rule Cons.IH)
    also have "\<dots> = (tiled off (s # xs)
        \<and> tiled (off + int (length (concat (map sp_text (s # xs))))) ys)"
      unfolding e using True by simp
    finally show ?thesis .
  next
    case False
    then show ?thesis by auto
  qed
qed

lemma pushSpan_inv:
  assumes "flatInv acc"
  shows "flatInv (pushSpan t marks hyperlink acc)"
proof (cases "t = []")
  case True
  then show ?thesis using assms by (simp add: pushSpan_def)
next
  case False
  then show ?thesis
    using assms by (simp add: flatInv_def pushSpan_def tiled_append)
qed

lemma walk_inv:
  "flatInv acc \<longrightarrow> flatInv (walk ns activeMarks activeHyperlink acc)"
  "flatInv acc \<longrightarrow> flatInv (walkNode n activeMarks activeHyperlink acc)"
  by (induction ns activeMarks activeHyperlink acc and n activeMarks activeHyperlink acc
      rule: walk_walkNode.induct) (auto simp: pushSpan_inv)

lemma flatten_tiled:
  "tiled 0 (fl_spans (flattenInlineBlock b))"
  "concat (map sp_text (fl_spans (flattenInlineBlock b))) = fl_text (flattenInlineBlock b)"
proof -
  have "flatInv ([], [])" by (simp add: flatInv_def)
  then have "flatInv (walk (case ncontent b of Some c \<Rightarrow> c | None \<Rightarrow> []) [] None ([], []))"
    using walk_inv(1) by blast
  then show "tiled 0 (fl_spans (flattenInlineBlock b))"
    and "concat (map sp_text (fl_spans (flattenInlineBlock b))) = fl_text (flattenInlineBlock b)"
    by (simp_all add: flatInv_def flattenInlineBlock_def Let_def)
qed


lemma data_or_empty_clone: "data_or_empty (Some (cloneHyperlink d)) = data_or_empty (Some d)"
  by (simp add: cloneHyperlink_def data_or_empty_def)

lemma formatOf_copy:
  assumes "sp_marks t = sp_marks s"
    and "sp_hyperlink t = map_option cloneHyperlink (sp_hyperlink s)"
  shows "formatOf t = formatOf s"
  using assms by (cases "sp_hyperlink s") (simp_all add: formatOf_def data_or_empty_clone)

lemma find_tiled_inside:
  assumes "tiled off ts" and "off \<le> p" and "p < off + int (length (styled ts))"
  shows "\<exists>s. find (\<lambda>s. p \<ge> sp_start s \<and> p < sp_end s) ts = Some s
            \<and> formatOf s = snd (styled ts ! nat (p - off))"
  using assms
proof (induction ts arbitrary: off)
  case Nil
  then show ?case by (simp add: styled_simps)
next
  case (Cons s ss)
  let ?L = "length (sp_text s)"
  have t: "sp_start s = off" "sp_end s = off + int ?L" "tiled (sp_end s) ss"
    using Cons.prems(1) unfolding tiled.simps by blast+
  show ?case
  proof (cases "p < sp_end s")
    case True
    then have i: "nat (p - off) < ?L" using t Cons.prems(2) by simp
    have "find (\<lambda>s. p \<ge> sp_start s \<and> p < sp_end s) (s # ss) = Some s"
      using True t Cons.prems(2) by simp
    moreover have "snd (styled (s # ss) ! nat (p - off)) = formatOf s"
      using i by (simp add: styled_simps nth_append)
    ultimately show ?thesis by simp
  next
    case False
    have le: "sp_end s \<le> p" using False by simp
    have lt: "p < sp_end s + int (length (styled ss))"
      using Cons.prems(3) t by (simp add: styled_simps)
    obtain u where u: "find (\<lambda>s. p \<ge> sp_start s \<and> p < sp_end s) ss = Some u"
      "formatOf u = snd (styled ss ! nat (p - sp_end s))"
      using Cons.IH [OF t(3) le lt] by blast
    have n: "nat (p - off) - ?L = nat (p - sp_end s)" using t le by simp
    have g: "\<not> nat (p - off) < ?L" using t le by simp
    have "snd (styled (s # ss) ! nat (p - off)) = snd (styled ss ! nat (p - sp_end s))"
      using g n by (simp add: styled_simps nth_append)
    moreover have "find (\<lambda>s. p \<ge> sp_start s \<and> p < sp_end s) (s # ss) = Some u"
      using False u(1) by simp
    ultimately show ?thesis using u(2) by simp
  qed
qed

lemma find_tiled_beyond:
  assumes "tiled off ts" and "off + int (length (styled ts)) \<le> p"
  shows "find (\<lambda>s. p \<ge> sp_start s \<and> p < sp_end s) ts = None"
  using assms
proof (induction ts arbitrary: off)
  case Nil
  show ?case by simp
next
  case (Cons s ss)
  have t: "sp_end s = off + int (length (sp_text s))" "tiled (sp_end s) ss"
    using Cons.prems(1) unfolding tiled.simps by blast+
  have "sp_end s + int (length (styled ss)) \<le> p"
    using Cons.prems(2) t by (simp add: styled_simps)
  then have "find (\<lambda>s. p \<ge> sp_start s \<and> p < sp_end s) ss = None"
    using Cons.IH [OF t(2)] by simp
  moreover have "\<not> p < sp_end s" using Cons.prems(2) t by (simp add: styled_simps)
  ultimately show ?case by simp
qed

lemma tiled_last:
  assumes "tiled off ts" and "ts \<noteq> []"
  shows "sp_end (last ts) = off + int (length (styled ts))
         \<and> formatOf (last ts) = snd (last (styled ts)) \<and> styled ts \<noteq> []"
  using assms
proof (induction ts arbitrary: off)
  case Nil
  then show ?case by simp
next
  case (Cons s ss)
  have t: "sp_text s \<noteq> []" "sp_end s = off + int (length (sp_text s))" "tiled (sp_end s) ss"
    using Cons.prems(1) unfolding tiled.simps by blast+
  show ?case
  proof (cases "ss = []")
    case True
    then show ?thesis using t by (simp add: styled_simps last_map)
  next
    case False
    then show ?thesis using Cons.IH [OF t(3) False] t by (simp add: styled_simps)
  qed
qed

lemma spanAtPosition_tiled:
  assumes "tiled 0 ts" and "c \<le> length (styled ts)" and "ts \<noteq> []"
  shows "\<exists>s. spanAtPosition ts (int c) = Some s \<and> formatOf s = inherited (styled ts) c"
proof (cases "c < length (styled ts)")
  case True
  then obtain s where "find (\<lambda>s. int c \<ge> sp_start s \<and> int c < sp_end s) ts = Some s"
    "formatOf s = snd (styled ts ! nat (int c - 0))"
    using find_tiled_inside [OF assms(1), of "int c"] by auto
  then show ?thesis using True by (simp add: spanAtPosition_def inherited_def)
next
  case False
  then have c: "c = length (styled ts)" using assms(2) by simp
  have "find (\<lambda>s. int c \<ge> sp_start s \<and> int c < sp_end s) ts = None"
    using find_tiled_beyond [OF assms(1), of "int c"] c by simp
  moreover have "sp_end (last ts) = int c \<and> formatOf (last ts) = snd (last (styled ts))
      \<and> styled ts \<noteq> []"
    using tiled_last [OF assms(1,3)] c by simp
  ultimately show ?thesis using c assms(3) by (simp add: spanAtPosition_def inherited_def)
qed

lemma insertedSpan_format:
  assumes "tiled 0 ts" and "c \<le> length (styled ts)"
  shows "styled [insertedSpan ts (int c) t] = map (\<lambda>ch. (ch, inherited (styled ts) c)) t"
proof (cases "ts = []")
  case True
  then have "insertedSpan ts (int c) t
      = \<lparr>sp_start = - 1, sp_end = - 1, sp_marks = [], sp_hyperlink = None, sp_text = t\<rparr>"
    by (simp add: insertedSpan_def spanAtPosition_def)
  then show ?thesis using True
    by (simp add: styled_simps formatOf_def marksKey_def inherited_def plain_def)
next
  case False
  obtain s where s: "spanAtPosition ts (int c) = Some s" "formatOf s = inherited (styled ts) c"
    using spanAtPosition_tiled [OF assms False] by blast
  have "formatOf (insertedSpan ts (int c) t) = formatOf s"
    using s(1) by (intro formatOf_copy) (simp_all add: insertedSpan_def)
  moreover have "sp_text (insertedSpan ts (int c) t) = t"
    by (simp add: insertedSpan_def Let_def)
  ultimately show ?thesis using s(2) by (simp add: styled_simps)
qed


lemma js_slice_nat:
  assumes "i \<le> length xs" and "j \<le> length xs"
  shows "js_slice xs (int i) (int j) = take (j - i) (drop i xs)"
proof -
  have "min (int i) (int (length xs)) = int i" "min (int j) (int (length xs)) = int j"
    using assms by simp_all
  moreover have "nat (int j - int i) = j - i" by simp
  ultimately show ?thesis by (simp add: js_slice_def Let_def)
qed

lemma take_drop_clip:
  assumes "k \<le> length xs"
  shows "take (min n (length xs) - k) (drop k xs) = take (n - k) (drop k xs)"
proof (cases "n \<le> length xs")
  case True
  then show ?thesis by (simp add: min_def)
next
  case False
  then show ?thesis by (simp add: min_def)
qed

lemma styled_slice_one:
  assumes "sp_start s = int off" and "sp_end s = int off + int (length (sp_text s))"
    and "sp_text s \<noteq> []" and "a < b"
  shows "styled (if sp_end s \<le> int a \<or> sp_start s \<ge> int b then []
            else (let from = max (int a) (sp_start s); to = min (int b) (sp_end s)
                  in [\<lparr>sp_start = from, sp_end = to, sp_marks = sp_marks s,
                        sp_hyperlink = map_option cloneHyperlink (sp_hyperlink s),
                        sp_text = js_slice (sp_text s) (from - sp_start s) (to - sp_start s)\<rparr>]))
         = take (b - max a off) (drop (max a off - off) (map (\<lambda>c. (c, formatOf s)) (sp_text s)))"
proof -
  let ?L = "length (sp_text s)"
  let ?m = "max a off"
  show ?thesis
  proof (cases "sp_end s \<le> int a \<or> sp_start s \<ge> int b")
    case True
    then have "off + ?L \<le> a \<or> b \<le> off" using assms(1,2) by auto
    then have "b - ?m = 0 \<or> ?L \<le> ?m - off" by arith
    then show ?thesis using True by (auto simp: styled_simps)
  next
    case False
    then have r: "a < off + ?L" "off < b" using assms(1,2) by auto
    let ?to = "min b (off + ?L)"
    let ?t = "\<lparr>sp_start = max (int a) (sp_start s), sp_end = min (int b) (sp_end s),
                sp_marks = sp_marks s,
                sp_hyperlink = map_option cloneHyperlink (sp_hyperlink s),
                sp_text = js_slice (sp_text s) (max (int a) (sp_start s) - sp_start s)
                            (min (int b) (sp_end s) - sp_start s)\<rparr>"
    have f: "max (int a) (sp_start s) - sp_start s = int (?m - off)"
      unfolding assms(1) by arith
    have t: "min (int b) (sp_end s) - sp_start s = int (?to - off)"
      unfolding assms(1,2) using r by arith
    have i: "?m - off \<le> ?L" using r by arith
    have j: "?to - off \<le> ?L" by arith
    have "sp_text ?t = take ((?to - off) - (?m - off)) (drop (?m - off) (sp_text s))"
      using js_slice_nat [OF i j] f t by simp
    also have "(?to - off) - (?m - off) = min (b - off) ?L - (?m - off)"
      using r by arith
    also have "take (min (b - off) ?L - (?m - off)) (drop (?m - off) (sp_text s))
        = take ((b - off) - (?m - off)) (drop (?m - off) (sp_text s))"
      using i by (rule take_drop_clip)
    also have "(b - off) - (?m - off) = b - ?m" by arith
    finally have x: "sp_text ?t = take (b - ?m) (drop (?m - off) (sp_text s))" .
    have "formatOf ?t = formatOf s" by (rule formatOf_copy) simp_all
    then have "styled [?t] = map (\<lambda>c. (c, formatOf s)) (sp_text ?t)"
      by (simp add: styled_simps)
    then have "styled [?t] = take (b - ?m) (drop (?m - off) (map (\<lambda>c. (c, formatOf s)) (sp_text s)))"
      unfolding x by (simp add: take_map drop_map)
    then show ?thesis using False by (simp add: Let_def)
  qed
qed

lemma sliceSpans_Cons:
  assumes "a < b"
  shows "sliceSpans (s # ss) a b =
    (if sp_end s \<le> a \<or> sp_start s \<ge> b then []
     else (let from = max a (sp_start s); to = min b (sp_end s)
           in [\<lparr>sp_start = from, sp_end = to, sp_marks = sp_marks s,
                 sp_hyperlink = map_option cloneHyperlink (sp_hyperlink s),
                 sp_text = js_slice (sp_text s) (from - sp_start s) (to - sp_start s)\<rparr>]))
    @ sliceSpans ss a b"
  using assms by (simp add: sliceSpans_def)

lemma take_drop_append_split:
  assumes "length X = L"
  shows "take n (drop k (X @ Y)) = take n (drop k X) @ take (n - (L - k)) (drop (k - L) Y)"
  using assms by simp

lemma styled_sliceSpans:
  assumes "tiled (int off) ts" and "a < b"
  shows "styled (sliceSpans ts (int a) (int b))
         = take (b - max a off) (drop (max a off - off) (styled ts))"
  using assms
proof (induction ts arbitrary: off)
  case Nil
  show ?case by (simp add: sliceSpans_def styled_simps)
next
  case (Cons s ss)
  let ?L = "length (sp_text s)"
  let ?X = "map (\<lambda>c. (c, formatOf s)) (sp_text s)"
  let ?m = "max a off"
  have t: "sp_start s = int off" "sp_text s \<noteq> []" "sp_end s = int off + int ?L"
    "tiled (sp_end s) ss"
    using Cons.prems(1) unfolding tiled.simps by blast+
  have e: "sp_end s = int (off + ?L)" using t(3) by simp
  have ab: "int a < int b" using Cons.prems(2) by simp
  have rest: "styled (sliceSpans ss (int a) (int b))
      = take (b - max a (off + ?L)) (drop (max a (off + ?L) - (off + ?L)) (styled ss))"
    using Cons.IH [of "off + ?L"] t(4) Cons.prems(2) unfolding e by simp
  have one: "styled (if sp_end s \<le> int a \<or> sp_start s \<ge> int b then []
            else (let from = max (int a) (sp_start s); to = min (int b) (sp_end s)
                  in [\<lparr>sp_start = from, sp_end = to, sp_marks = sp_marks s,
                        sp_hyperlink = map_option cloneHyperlink (sp_hyperlink s),
                        sp_text = js_slice (sp_text s) (from - sp_start s) (to - sp_start s)\<rparr>]))
         = take (b - ?m) (drop (?m - off) ?X)"
    using t(1) t(3) t(2) Cons.prems(2) by (rule styled_slice_one)
  have L0: "0 < ?L" using t(2) by simp
  have k: "?m - off - ?L = max a (off + ?L) - (off + ?L)"
    using L0 by arith
  have n: "(b - ?m) - (?L - (?m - off)) = b - max a (off + ?L)"
    using L0 by arith
  have "styled (sliceSpans (s # ss) (int a) (int b))
      = take (b - ?m) (drop (?m - off) ?X) @ styled (sliceSpans ss (int a) (int b))"
    unfolding sliceSpans_Cons [OF ab] styled_simps(3) one ..
  also have "\<dots> = take (b - ?m) (drop (?m - off) ?X)
      @ take ((b - ?m) - (?L - (?m - off))) (drop (?m - off - ?L) (styled ss))"
    unfolding rest k n ..
  also have "\<dots> = take (b - ?m) (drop (?m - off) (?X @ styled ss))"
    by (rule take_drop_append_split [symmetric]) simp
  finally show ?case by (simp add: styled_simps)
qed

lemma diff_text1_Cons:
  "diff_text1 (d # ds) = (if fst d = 0 \<or> fst d = - 1 then snd d else []) @ diff_text1 ds"
  by (simp add: diff_text1_def)

lemma styled_rebuildLoop:
  assumes "tiled 0 ts" and "c + length (diff_text1 ds) \<le> length (styled ts)"
  shows "styled (rebuildLoop ds ts (int c)) = woven (styled ts) ds c"
  using assms(2)
proof (induction ds arbitrary: c)
  case Nil
  show ?case by (simp add: styled_simps)
next
  case (Cons d ds)
  let ?len = "length (snd d)"
  show ?case
  proof (cases "fst d = 0 \<or> fst d = - 1")
    case True
    then have b: "(c + ?len) + length (diff_text1 ds) \<le> length (styled ts)"
      using Cons.prems by (simp add: diff_text1_Cons)
    have r: "styled (rebuildLoop ds ts (int (c + ?len))) = woven (styled ts) ds (c + ?len)"
      using b by (rule Cons.IH)
    have s: "styled (sliceSpans ts (int c) (int (c + ?len))) = take ?len (drop c (styled ts))"
    proof (cases "?len = 0")
      case True
      then show ?thesis by (simp add: sliceSpans_def styled_simps)
    next
      case False
      then have "c < c + ?len" by simp
      then show ?thesis using styled_sliceSpans [of 0 ts c "c + ?len"] assms(1) by simp
    qed
    have "rebuildLoop (d # ds) ts (int c)
        = sliceSpans ts (int c) (int (c + ?len)) @ rebuildLoop ds ts (int (c + ?len))"
      using True by (simp add: Let_def)
    then show ?thesis using True r s by (simp add: styled_simps)
  next
    case False
    then have b: "c + length (diff_text1 ds) \<le> length (styled ts)"
      using Cons.prems by (simp add: diff_text1_Cons)
    have r: "styled (rebuildLoop ds ts (int c)) = woven (styled ts) ds c"
      using b by (rule Cons.IH)
    show ?thesis
    proof (cases "fst d = 1")
      case True
      have "c \<le> length (styled ts)" using b by simp
      then have i: "styled [insertedSpan ts (int c) (snd d)]
          = map (\<lambda>ch. (ch, inherited (styled ts) c)) (snd d)"
        using assms(1) by (intro insertedSpan_format)
      have "rebuildLoop (d # ds) ts (int c)
          = [insertedSpan ts (int c) (snd d)] @ rebuildLoop ds ts (int c)"
        using True by (simp add: Let_def)
      then have "styled (rebuildLoop (d # ds) ts (int c))
          = styled [insertedSpan ts (int c) (snd d)] @ styled (rebuildLoop ds ts (int c))"
        by (simp only: styled_simps(3))
      then show ?thesis using True r i by simp
    next
      case False
      then show ?thesis using \<open>\<not> (fst d = 0 \<or> fst d = - 1)\<close> r by (simp add: Let_def)
    qed
  qed
qed


text \<open>
  C5: let the diff describe the flattened target text as its old text. Then, character by
  character, the spans rebuilt by \<open>rebuildSpansFromDiffs\<close> carry the target's characters with
  their own formatting for equal and delete operations, and every inserted character with
  the formatting (marks and hyperlink, as the merge compares them) of the target span
  covering the insertion point, or of the last target span when the insertion is at the end
  of the text. The source enters the inline merge only through its flattened text: two
  source blocks with the same text and different formatting give the same merged block.
\<close>

theorem inserted_text_inherits_target_formatting:
  assumes "diff_text1 diffs = fl_text (flattenInlineBlock tgtBlock)"
  shows "styled (rebuildSpansFromDiffs diffs (fl_spans (flattenInlineBlock tgtBlock)))
           = woven (styled (fl_spans (flattenInlineBlock tgtBlock))) diffs 0
         \<and> map fst (styled (fl_spans (flattenInlineBlock tgtBlock)))
           = fl_text (flattenInlineBlock tgtBlock)
         \<and> (\<forall>dmp src1 src2.
               fl_text (flattenInlineBlock src1) = fl_text (flattenInlineBlock src2) \<longrightarrow>
               mergeInlineBlock dmp src1 tgtBlock = mergeInlineBlock dmp src2 tgtBlock)"
proof -
  let ?ts = "fl_spans (flattenInlineBlock tgtBlock)"
  have t: "tiled 0 ?ts" by (rule flatten_tiled(1))
  have m: "map fst (styled ?ts) = fl_text (flattenInlineBlock tgtBlock)"
    by (simp add: map_fst_styled flatten_tiled(2))
  have "length (styled ?ts) = length (diff_text1 diffs)"
    using assms by (simp add: length_styled flatten_tiled(2))
  then have "0 + length (diff_text1 diffs) \<le> length (styled ?ts)" by simp
  then have "styled (rebuildLoop diffs ?ts (int 0)) = woven (styled ?ts) diffs 0"
    using t by (intro styled_rebuildLoop)
  then have r: "styled (rebuildSpansFromDiffs diffs ?ts) = woven (styled ?ts) diffs 0"
    by (simp add: rebuildSpansFromDiffs_def styled_coalesceSpans)
  have s: "\<forall>dmp src1 src2.
      fl_text (flattenInlineBlock src1) = fl_text (flattenInlineBlock src2) \<longrightarrow>
      mergeInlineBlock dmp src1 tgtBlock = mergeInlineBlock dmp src2 tgtBlock"
    by (simp add: mergeInlineBlock_def)
  from r m s show ?thesis by (intro conjI)
qed

theorem inserted_text_inherits_target_formatting_witness:
  "diff_text1 [(0, ''Hel''), (1, ''X''), (0, ''lo world''), (1, ''!'')]
     = fl_text (flattenInlineBlock (para [tnode ''Hello '' [''bold''], tnode ''world'' []]))
   \<and> styled (rebuildSpansFromDiffs [(0, ''Hel''), (1, ''X''), (0, ''lo world''), (1, ''!'')]
              (fl_spans (flattenInlineBlock (para [tnode ''Hello '' [''bold''], tnode ''world'' []]))))
     = map (\<lambda>c. (c, (1, ''bold'', None))) ''HelXlo '' @ map (\<lambda>c. (c, (0, [], None))) ''world!''
   \<and> mergeInlineBlock (\<lambda>old new. [(0, ''Hel''), (1, ''X''), (0, ''lo world''), (1, ''!'')])
         (para [tnode ''HelXlo world!'' [''italic'']])
         (para [tnode ''Hello '' [''bold''], tnode ''world'' []])
     = para [tnode ''HelXlo '' [''bold''], tnode ''world!'' []]"
proof -
  let ?tgt = "para [tnode ''Hello '' [''bold''], tnode ''world'' []]"
  let ?diffs = "[(0, ''Hel''), (1, ''X''), (0, ''lo world''), (1, ''!'')] :: diff list"
  let ?spans = "[\<lparr>sp_start = 0, sp_end = 6, sp_marks = [''bold''], sp_hyperlink = None,
                   sp_text = ''Hello ''\<rparr>,
                 \<lparr>sp_start = 6, sp_end = 11, sp_marks = [], sp_hyperlink = None,
                   sp_text = ''world''\<rparr>]"
  let ?merged = "[\<lparr>sp_start = 0, sp_end = 3, sp_marks = [''bold''], sp_hyperlink = None,
                    sp_text = ''HelXlo ''\<rparr>,
                  \<lparr>sp_start = 6, sp_end = 11, sp_marks = [], sp_hyperlink = None,
                    sp_text = ''world!''\<rparr>]"
  have tx: "fl_text (flattenInlineBlock ?tgt) = ''Hello world''"
    by (simp add: flattenInlineBlock_def para_def tnode_def pushSpan_def)
  have sp: "fl_spans (flattenInlineBlock ?tgt) = ?spans"
    by (simp add: flattenInlineBlock_def para_def tnode_def pushSpan_def)
  have h: "diff_text1 ?diffs = fl_text (flattenInlineBlock ?tgt)"
    unfolding tx by (simp add: diff_text1_def)
  have st: "styled ?spans
      = map (\<lambda>c. (c, (1, ''bold'', None))) ''Hello '' @ map (\<lambda>c. (c, (0, [], None))) ''world''"
    by (simp add: styled_def formatOf_def marksKey_def)
  have w: "woven (map (\<lambda>c. (c, (1, ''bold'', None))) ''Hello ''
                  @ map (\<lambda>c. (c, (0, [], None))) ''world'') ?diffs 0
      = map (\<lambda>c. (c, (1, ''bold'', None))) ''HelXlo '' @ map (\<lambda>c. (c, (0, [], None))) ''world!''"
    by (simp add: inherited_def)
  have rb: "rebuildSpansFromDiffs ?diffs ?spans = ?merged"
    by (simp add: rebuildSpansFromDiffs_def sliceSpans_def js_slice_def insertedSpan_def
        spanAtPosition_def sameMarks_def sameHyperlink_def marksKey_def Let_def)
  have bd: "buildInlineBlockFromSpans ''paragraph'' (JObj []) ?merged
      = para [tnode ''HelXlo '' [''bold''], tnode ''world!'' []]"
    by (simp add: buildInlineBlockFromSpans_def buildStep_def flushText_def keyFor_def
        marksKey_def normalizeMarks_def data_or_empty_def para_def tnode_def Let_def)
  have nt: "nodeType ?tgt = ''paragraph''" "data_or_empty (ndata ?tgt) = JObj []"
    by (simp_all add: para_def data_or_empty_def)
  have b: "mergeInlineBlock (\<lambda>old new. ?diffs) (para [tnode ''HelXlo world!'' [''italic'']]) ?tgt
      = para [tnode ''HelXlo '' [''bold''], tnode ''world!'' []]"
    unfolding mergeInlineBlock_def Let_def sp nt rb by (rule bd)
  have "styled (rebuildSpansFromDiffs ?diffs (fl_spans (flattenInlineBlock ?tgt)))
      = woven (styled (fl_spans (flattenInlineBlock ?tgt))) ?diffs 0"
    using inserted_text_inherits_target_formatting [OF h] by blast
  then have "styled (rebuildSpansFromDiffs ?diffs (fl_spans (flattenInlineBlock ?tgt)))
      = map (\<lambda>c. (c, (1, ''bold'', None))) ''HelXlo '' @ map (\<lambda>c. (c, (0, [], None))) ''world!''"
    unfolding sp st w .
  with h b show ?thesis by (intro conjI)
qed


end
